theory Spec2Isabelle
  imports Main "HOL-Library.Word" "HOL-Library.Monad_Syntax"
begin

unbundle bit_operations_syntax

section \<open>Data model of \<^verbatim>\<open>src/sim/verilator_main.cpp\<close>\<close>

text \<open>
  The driver is one C++ function, \<^verbatim>\<open>main\<close>. Its blocks are embedded as HOL functions over
  an explicit simulation state. A computation whose C++ behaviour is undefined (an index
  outside an allocated buffer, a write through a null \<^verbatim>\<open>FILE*\<close>) has the value \<open>None\<close>;
  every other computation returns \<open>Some\<close> of its result.
\<close>

type_synonym byte = "8 word"

text \<open>
  The command-line arguments \<^verbatim>\<open>MEM_W MEM_SZ MEM_LATENCY EXTRA_CYCLES\<close>, each a C \<^verbatim>\<open>int\<close>
  read by \<^verbatim>\<open>strtol\<close>.
\<close>

record config =
  mem_w :: int
  mem_sz :: int
  mem_latency :: int
  extra_cycles :: int

text \<open>
  The pins of the Verilated model \<^verbatim>\<open>Vvproc_top\<close> that \<^verbatim>\<open>main\<close> touches, and the opaque
  rest of the object (\<open>core\<close>). The header \<^verbatim>\<open>Vvproc_top.h\<close> is not part of the sources:
  one-bit ports are booleans, the address is the 32-bit port that \<^verbatim>\<open>log_cycle\<close> prints
  with \<^verbatim>\<open>%08X\<close>, and the data ports are 64-bit carriers, the widest value an
  \<^verbatim>\<open>int64_t\<close> queue slot can hold (bus widths up to 64 bits).
\<close>

record 's Vvproc_top =
  clk_i :: bool
  rst_ni :: bool
  mem_rvalid_i :: bool
  mem_rdata_i :: "64 word"
  mem_err_i :: bool
  mem_req_o :: bool
  mem_addr_o :: "32 word"
  mem_we_o :: bool
  mem_be_o :: "8 word"
  mem_wdata_o :: "64 word"
  core :: 's

text \<open>
  The variables of \<^verbatim>\<open>main\<close> that live across cycles and programs: the byte buffer
  \<^verbatim>\<open>mem\<close>, the three latency queues, the model \<^verbatim>\<open>top\<close> (here \<open>vtop\<close>), the rows written
  to the trace file \<^verbatim>\<open>fcsv\<close> (reset, request and address columns) and the global
  \<^verbatim>\<open>main_time\<close>.
\<close>

record 's sim =
  mem :: "byte list"
  mem_rvalid_queue :: "bool list"
  mem_rdata_queue :: "64 word list"
  mem_err_queue :: "bool list"
  vtop :: "'s Vvproc_top"
  fcsv :: "(bool \<times> bool \<times> 32 word) list"
  main_time :: "64 word"

text \<open>
  The buffers as \<^verbatim>\<open>main\<close> allocates them: \<^verbatim>\<open>malloc(mem_sz)\<close> bytes and three queues of
  \<^verbatim>\<open>mem_latency\<close> slots.
\<close>

definition allocated :: "config \<Rightarrow> 's sim \<Rightarrow> bool" where
  "allocated cfg s \<longleftrightarrow>
     length (mem s) = nat (mem_sz cfg) \<and>
     length (mem_rvalid_queue s) = nat (mem_latency cfg) \<and>
     length (mem_rdata_queue s) = nat (mem_latency cfg) \<and>
     length (mem_err_queue s) = nat (mem_latency cfg)"

subsection \<open>Array accesses\<close>

text \<open>\<^verbatim>\<open>a[i]\<close> read and written with a C \<^verbatim>\<open>int\<close> index; outside the buffer it is undefined.\<close>

definition arr_get :: "'a list \<Rightarrow> int \<Rightarrow> 'a option" where
  "arr_get a i = (if 0 \<le> i \<and> i < int (length a) then Some (a ! nat i) else None)"

definition arr_set :: "'a list \<Rightarrow> int \<Rightarrow> 'a \<Rightarrow> 'a list option" where
  "arr_set a i v = (if 0 \<le> i \<and> i < int (length a) then Some (a[nat i := v]) else None)"

text \<open>C integer division truncates towards zero.\<close>

definition c_div :: "int \<Rightarrow> int \<Rightarrow> int" where
  "c_div a b = sgn a * sgn b * (\<bar>a\<bar> div \<bar>b\<bar>)"

subsection \<open>The device under test\<close>

text \<open>
  Modelled from the spec: \<^verbatim>\<open>Vvproc_top::eval\<close> is not part of the sources. The spec gives it
  as an operation that recomputes all outputs from the current inputs and the internal
  state; so an evaluation applies an arbitrary function \<open>dut\<close> to the object and leaves the
  five input ports as the driver set them.
\<close>

definition eval :: "('s Vvproc_top \<Rightarrow> 's Vvproc_top) \<Rightarrow> 's Vvproc_top \<Rightarrow> 's Vvproc_top" where
  "eval dut t = (dut t)\<lparr>clk_i := clk_i t, rst_ni := rst_ni t, mem_rvalid_i := mem_rvalid_i t,
     mem_rdata_i := mem_rdata_i t, mem_err_i := mem_err_i t\<rparr>"

text \<open>\<^verbatim>\<open>log_cycle\<close>: one row to the trace file, one tick of \<^verbatim>\<open>main_time\<close>.\<close>

definition log_cycle :: "'s sim \<Rightarrow> 's sim" where
  "log_cycle s = s\<lparr>fcsv := fcsv s @ [(rst_ni (vtop s), mem_req_o (vtop s), mem_addr_o (vtop s))],
     main_time := main_time s + 1\<rparr>"

section \<open>One simulated clock cycle\<close>

text \<open>
  \<^verbatim>\<open>int addr = (top->mem_addr_o % mem_sz) & ~(mem_w/8-1);\<close>
  The port is unsigned, so \<^verbatim>\<open>mem_sz\<close> and the mask are converted to \<^verbatim>\<open>unsigned int\<close>, and the
  result is converted back to \<^verbatim>\<open>int\<close>.
\<close>

definition effective_addr :: "config \<Rightarrow> 32 word \<Rightarrow> int" where
  "effective_addr cfg a =
     sint ((a mod word_of_int (mem_sz cfg)) AND word_of_int (NOT (c_div (mem_w cfg) 8 - 1)))"

text \<open>
  \<^verbatim>\<open>for (i = 0; i < mem_w / 8; i++) if ((top->mem_be_o & (1<<i))) mem[addr+i] = top->mem_wdata_o >> (i*8);\<close>
  over the list of values of \<^verbatim>\<open>i\<close>. A shift by a count that is not less than the width
  of its left operand is undefined: \<^verbatim>\<open>1<<i\<close> shifts an \<^verbatim>\<open>int\<close> of 32 bits, and
  \<^verbatim>\<open>top->mem_wdata_o >> (i*8)\<close> the write data of 64 bits.
\<close>

primrec write_bytes :: "int \<Rightarrow> 8 word \<Rightarrow> 64 word \<Rightarrow> nat list \<Rightarrow> byte list \<Rightarrow> byte list option" where
  "write_bytes addr be wdata [] m = Some m"
| "write_bytes addr be wdata (i # is) m =
     (if 32 \<le> i then None
      else if bit be i
      then (if 64 \<le> i * 8 then None
            else (case arr_set m (addr + int i) (ucast (drop_bit (i * 8) wdata)) of
                    None \<Rightarrow> None
                  | Some m' \<Rightarrow> write_bytes addr be wdata is m'))
      else write_bytes addr be wdata is m)"

text \<open>
  \<^verbatim>\<open>for (i = 0; i < mem_w / 8; i++) mem_rdata_queue[0] |= ((int64_t)mem[addr+i]) << (i*8);\<close>
  The byte is shifted as an \<^verbatim>\<open>int64_t\<close>: from \<^verbatim>\<open>i*8 = 64\<close>, that is for a bus of more than
  64 bits, the shift is undefined. Below that the shifted byte fits into 64 bits, and its
  conversion to \<^verbatim>\<open>int64_t\<close> keeps the bits.
\<close>

primrec read_bytes :: "byte list \<Rightarrow> int \<Rightarrow> nat list \<Rightarrow> 64 word list \<Rightarrow> 64 word list option" where
  "read_bytes m addr [] q = Some q"
| "read_bytes m addr (i # is) q =
     (case arr_get m (addr + int i) of
        None \<Rightarrow> None
      | Some b \<Rightarrow>
          (if 64 \<le> i * 8 then None
           else (case arr_get q 0 of
                   None \<Rightarrow> None
                 | Some d \<Rightarrow>
                     (case arr_set q 0 (d OR push_bit (i * 8) (ucast b)) of
                        None \<Rightarrow> None
                      | Some q' \<Rightarrow> read_bytes m addr is q'))))"

text \<open>The values of \<^verbatim>\<open>i\<close> in the two byte loops, \<^verbatim>\<open>0 .. mem_w/8 - 1\<close>.\<close>

definition bus_bytes :: "config \<Rightarrow> nat list" where
  "bus_bytes cfg = [0 ..< nat (c_div (mem_w cfg) 8)]"

text \<open>\<^verbatim>\<open>if (top->mem_req_o && top->mem_we_o) { ... }\<close>\<close>

definition write_request :: "config \<Rightarrow> 's Vvproc_top \<Rightarrow> byte list \<Rightarrow> byte list option" where
  "write_request cfg t m =
     (if mem_req_o t \<and> mem_we_o t
      then write_bytes (effective_addr cfg (mem_addr_o t)) (mem_be_o t) (mem_wdata_o t)
             (bus_bytes cfg) m
      else Some m)"

text \<open>
  The block \<^verbatim>\<open>// read memory request\<close>: the masked write, then the response for this
  request is put into slot 0 of the three queues.
\<close>

definition read_memory_request :: "config \<Rightarrow> 's sim \<Rightarrow> 's sim option" where
  "read_memory_request cfg s = do {
     let addr = effective_addr cfg (mem_addr_o (vtop s));
     m \<leftarrow> write_request cfg (vtop s) (mem s);
     rv \<leftarrow> arr_set (mem_rvalid_queue s) 0 (mem_req_o (vtop s));
     er \<leftarrow> arr_set (mem_err_queue s) 0 (mem_sz cfg \<le> addr);
     rd0 \<leftarrow> arr_set (mem_rdata_queue s) 0 0;
     rd \<leftarrow> read_bytes m addr (bus_bytes cfg) rd0;
     Some (s\<lparr>mem := m, mem_rvalid_queue := rv, mem_rdata_queue := rd, mem_err_queue := er\<rparr>)
   }"

text \<open>
  \<^verbatim>\<open>for (i = mem_latency-1; i > 0; i--) { q[i] = q[i-1]; }\<close> for the three queues; the
  argument is the number of iterations left, that is the current \<^verbatim>\<open>i\<close>.
\<close>

primrec advance :: "nat \<Rightarrow> 's sim \<Rightarrow> 's sim option" where
  "advance 0 s = Some s"
| "advance (Suc n) s = do {
     v \<leftarrow> arr_get (mem_rvalid_queue s) (int n);
     rv \<leftarrow> arr_set (mem_rvalid_queue s) (int (Suc n)) v;
     d \<leftarrow> arr_get (mem_rdata_queue s) (int n);
     rd \<leftarrow> arr_set (mem_rdata_queue s) (int (Suc n)) d;
     e \<leftarrow> arr_get (mem_err_queue s) (int n);
     er \<leftarrow> arr_set (mem_err_queue s) (int (Suc n)) e;
     advance n (s\<lparr>mem_rvalid_queue := rv, mem_rdata_queue := rd, mem_err_queue := er\<rparr>)
   }"

text \<open>
  The block \<^verbatim>\<open>// fulfill memory request\<close>: the slot \<^verbatim>\<open>mem_latency-1\<close> of each queue is
  put on the response ports, the model is evaluated and the queues are shifted.
\<close>

definition fulfill_memory_request ::
  "('s Vvproc_top \<Rightarrow> 's Vvproc_top) \<Rightarrow> config \<Rightarrow> 's sim \<Rightarrow> 's sim option" where
  "fulfill_memory_request dut cfg s = do {
     v \<leftarrow> arr_get (mem_rvalid_queue s) (mem_latency cfg - 1);
     d \<leftarrow> arr_get (mem_rdata_queue s) (mem_latency cfg - 1);
     e \<leftarrow> arr_get (mem_err_queue s) (mem_latency cfg - 1);
     let t = eval dut ((vtop s)\<lparr>mem_rvalid_i := v, mem_rdata_i := d, mem_err_i := e\<rparr>);
     advance (nat (mem_latency cfg - 1)) (s\<lparr>vtop := t\<rparr>)
   }"

text \<open>The body of the \<^verbatim>\<open>while (end_cnt < extra_cycles)\<close> loop up to \<^verbatim>\<open>log_cycle\<close>.\<close>

definition cycle :: "('s Vvproc_top \<Rightarrow> 's Vvproc_top) \<Rightarrow> config \<Rightarrow> 's sim \<Rightarrow> 's sim option" where
  "cycle dut cfg s = do {
     s1 \<leftarrow> read_memory_request cfg s;
     let s2 = s1\<lparr>vtop := eval dut ((vtop s1)\<lparr>clk_i := True\<rparr>)\<rparr>;
     s3 \<leftarrow> fulfill_memory_request dut cfg s2;
     let s4 = s3\<lparr>vtop := eval dut ((vtop s3)\<lparr>clk_i := False\<rparr>)\<rparr>;
     Some (log_cycle s4)
   }"

section \<open>Running one program\<close>

text \<open>\<^verbatim>\<open>for (i = 0; i < mem_latency; i++) mem_rvalid_queue[i] = 0;\<close>\<close>

primrec clear_rvalid :: "nat list \<Rightarrow> bool list \<Rightarrow> bool list option" where
  "clear_rvalid [] q = Some q"
| "clear_rvalid (i # is) q =
     (case arr_set q (int i) False of None \<Rightarrow> None | Some q' \<Rightarrow> clear_rvalid is q')"

text \<open>The reset loop: a rising and a falling edge, then \<^verbatim>\<open>log_cycle\<close>, a given number of times.\<close>

primrec reset_cycles :: "('s Vvproc_top \<Rightarrow> 's Vvproc_top) \<Rightarrow> nat \<Rightarrow> 's sim \<Rightarrow> 's sim" where
  "reset_cycles dut 0 s = s"
| "reset_cycles dut (Suc n) s =
     reset_cycles dut n
       (log_cycle (s\<lparr>vtop := eval dut ((eval dut ((vtop s)\<lparr>clk_i := True\<rparr>))\<lparr>clk_i := False\<rparr>)\<rparr>))"

text \<open>
  The start of the block \<^verbatim>\<open>// simulate program execution\<close>: only the valid queue is
  cleared, the model is held in reset for ten cycles, then reset is released and the model
  evaluated once.
\<close>

definition reset_sequence :: "('s Vvproc_top \<Rightarrow> 's Vvproc_top) \<Rightarrow> config \<Rightarrow> 's sim \<Rightarrow> 's sim option" where
  "reset_sequence dut cfg s = do {
     rv \<leftarrow> clear_rvalid [0 ..< nat (mem_latency cfg)] (mem_rvalid_queue s);
     let s1 = s\<lparr>mem_rvalid_queue := rv,
                vtop := (vtop s)\<lparr>mem_rvalid_i := False, clk_i := False, rst_ni := False\<rparr>\<rparr>;
     let s2 = reset_cycles dut 10 s1;
     Some (s2\<lparr>vtop := eval dut ((vtop s2)\<lparr>rst_ni := True\<rparr>)\<rparr>)
   }"

text \<open>
  \<^verbatim>\<open>if (end_cnt > 0 || (top->mem_req_o == 1 && top->mem_addr_o == 0)) end_cnt++;\<close>
\<close>

definition next_end_cnt :: "int \<Rightarrow> 's sim \<Rightarrow> int" where
  "next_end_cnt end_cnt s =
     (if 0 < end_cnt \<or> (mem_req_o (vtop s) \<and> mem_addr_o (vtop s) = 0) then end_cnt + 1 else end_cnt)"

text \<open>
  \<^verbatim>\<open>while (end_cnt < extra_cycles) { ... }\<close>. The loop need not end: the outer \<open>None\<close> is a
  run that never leaves the loop, \<open>Some None\<close> a run that reaches undefined behaviour.
\<close>

partial_function (option) run_loop ::
  "('s Vvproc_top \<Rightarrow> 's Vvproc_top) \<Rightarrow> config \<Rightarrow> int \<Rightarrow> 's sim \<Rightarrow> 's sim option option" where
  "run_loop dut cfg end_cnt s =
     (if end_cnt < extra_cycles cfg
      then (case cycle dut cfg s of
              None \<Rightarrow> Some None
            | Some s' \<Rightarrow> run_loop dut cfg (next_end_cnt end_cnt s') s')
      else Some (Some s))"

definition simulate ::
  "('s Vvproc_top \<Rightarrow> 's Vvproc_top) \<Rightarrow> config \<Rightarrow> 's sim \<Rightarrow> 's sim option option" where
  "simulate dut cfg s =
     (case reset_sequence dut cfg s of None \<Rightarrow> Some None | Some s' \<Rightarrow> run_loop dut cfg 0 s')"

text \<open>A number of consecutive cycles: the state at the start of cycle \<open>n\<close>, counted from 0.\<close>

primrec cycles :: "('s Vvproc_top \<Rightarrow> 's Vvproc_top) \<Rightarrow> config \<Rightarrow> nat \<Rightarrow> 's sim \<Rightarrow> 's sim option" where
  "cycles dut cfg 0 s = Some s"
| "cycles dut cfg (Suc n) s =
     (case cycle dut cfg s of None \<Rightarrow> None | Some s' \<Rightarrow> cycles dut cfg n s')"

declare run_loop.simps [code]

section \<open>Loading a program image\<close>

text \<open>
  The functions of the C library that the loader calls. \<^verbatim>\<open>strtol(s, &end, 16)\<close> skips white
  space, takes an optional sign and an optional \<^verbatim>\<open>0x\<close> that is followed by a digit, and
  converts the longest run of hexadecimal digits, clamped to the range of \<^verbatim>\<open>long\<close>; without a
  digit it returns 0 and leaves \<^verbatim>\<open>end\<close> at \<^verbatim>\<open>s\<close>. A string ends at the end of the list or
  before a NUL character.
\<close>

definition isspace :: "char \<Rightarrow> bool" where
  "isspace c \<longleftrightarrow> c = CHR '' '' \<or> c = CHR 0x09 \<or> c = CHR 0x0A \<or> c = CHR 0x0B \<or> c = CHR 0x0C \<or> c = CHR 0x0D"

definition isxdigit :: "char \<Rightarrow> bool" where
  "isxdigit c \<longleftrightarrow> (let n = of_char c :: nat in
     (48 \<le> n \<and> n \<le> 57) \<or> (97 \<le> n \<and> n \<le> 102) \<or> (65 \<le> n \<and> n \<le> 70))"

definition xdigit_val :: "char \<Rightarrow> int" where
  "xdigit_val c = (let n = of_char c :: nat in
     if n \<le> 57 then int n - 48 else if 97 \<le> n then int n - 87 else int n - 55)"

definition strtol16 :: "string \<Rightarrow> int \<times> string" where
  "strtol16 s =
     (let s1 = dropWhile isspace s;
          neg = (case s1 of [] \<Rightarrow> False | c # _ \<Rightarrow> c = CHR ''-'');
          s2 = (case s1 of [] \<Rightarrow> s1 | c # r \<Rightarrow> if c = CHR ''-'' \<or> c = CHR ''+'' then r else s1);
          s3 = (case s2 of
                  c0 # cx # d # r \<Rightarrow>
                    if c0 = CHR ''0'' \<and> (cx = CHR ''x'' \<or> cx = CHR ''X'') \<and> isxdigit d
                    then d # r else s2
                | _ \<Rightarrow> s2);
          ds = takeWhile isxdigit s3;
          v = foldl (\<lambda>a c. 16 * a + xdigit_val c) 0 ds
      in if ds = [] then (0, s)
         else (if neg then (if 2 ^ 63 < v then - (2 ^ 63) else - v)
               else (if 2 ^ 63 - 1 < v then 2 ^ 63 - 1 else v),
               dropWhile isxdigit s3))"

text \<open>\<^verbatim>\<open>while (*ptr == ' ') ptr++;\<close> and the test \<^verbatim>\<open>*ptr != '\n' && *ptr != 0\<close> negated.\<close>

definition skip_spaces :: "string \<Rightarrow> string" where
  "skip_spaces ptr = dropWhile (\<lambda>c. c = CHR '' '') ptr"

definition at_line_end :: "string \<Rightarrow> bool" where
  "at_line_end ptr = (case ptr of [] \<Rightarrow> True | c # _ \<Rightarrow> c = CHR 0x0A \<or> c = CHR 0x00)"

text \<open>\<^verbatim>\<open>for (i = 0; i < 4; i++) mem[addr+i] = data >> (8*i);\<close>\<close>

primrec store_bytes :: "int \<Rightarrow> 32 word \<Rightarrow> nat list \<Rightarrow> byte list \<Rightarrow> byte list option" where
  "store_bytes addr data [] m = Some m"
| "store_bytes addr data (i # is) m =
     (case arr_set m (addr + int i) (ucast (drop_bit (8 * i) data)) of
        None \<Rightarrow> None
      | Some m' \<Rightarrow> store_bytes addr data is m')"

text \<open>
  The variables of the loader: the current address \<^verbatim>\<open>addr\<close> and the buffer \<^verbatim>\<open>mem\<close>. The
  third field is not a variable of the program: it lists the words stored so far with their
  addresses, in order, so that properties can speak of what the loader wrote.
\<close>

record loader =
  ld_addr :: int
  ld_mem :: "byte list"
  ld_stored :: "(int \<times> 32 word) list"

lemma length_strtol16: "length (snd (strtol16 s)) \<le> length s"
proof -
  have a: "length (dropWhile P xs) \<le> length xs" for P and xs :: string
    by (induction xs) auto
  let ?s1 = "dropWhile isspace s"
  let ?s2 = "(case ?s1 of [] \<Rightarrow> ?s1 | c # r \<Rightarrow> if c = CHR ''-'' \<or> c = CHR ''+'' then r else ?s1)"
  let ?s3 = "(case ?s2 of
                  c0 # cx # d # r \<Rightarrow>
                    if c0 = CHR ''0'' \<and> (cx = CHR ''x'' \<or> cx = CHR ''X'') \<and> isxdigit d
                    then d # r else ?s2
                | _ \<Rightarrow> ?s2)"
  have "length ?s3 \<le> length ?s2" by (auto split: list.splits)
  also have "\<dots> \<le> length ?s1" by (auto split: list.splits)
  also have "\<dots> \<le> length s" by (rule a)
  finally have "length (dropWhile isxdigit ?s3) \<le> length s"
    using a [of isxdigit ?s3] by simp
  then show ?thesis by (simp add: strtol16_def Let_def)
qed

lemma length_skip_spaces: "length (skip_spaces p) \<le> length p"
  unfolding skip_spaces_def by (induction p) auto

lemma store_bytes_length: "store_bytes a data is m = Some m' \<Longrightarrow> length m' = length m"
  by (induction "is" arbitrary: m) (auto simp: arr_set_def split: option.splits if_splits)

lemma store_bytes_range:
  "store_bytes a data is m = Some m' \<Longrightarrow> i \<in> set is \<Longrightarrow>
   0 \<le> a + int i \<and> a + int i < int (length m)"
proof (induction "is" arbitrary: m)
  case Nil
  then show ?case by simp
next
  case (Cons k "is")
  from Cons.prems(1) obtain m1 where
    m1: "arr_set m (a + int k) (ucast (drop_bit (8 * k) data)) = Some m1"
    and r: "store_bytes a data is m1 = Some m'"
    by (auto split: option.splits)
  from m1 have k: "0 \<le> a + int k" "a + int k < int (length m)" and l: "length m1 = length m"
    by (auto simp: arr_set_def split: if_splits)
  show ?case
  proof (cases "i = k")
    case True
    with k show ?thesis by simp
  next
    case False
    with Cons.prems(2) have "i \<in> set is" by simp
    from Cons.IH [OF r this] l show ?thesis by simp
  qed
qed

text \<open>
  The inner loop \<^verbatim>\<open>while (*ptr != '\n' && *ptr != 0) { ... }\<close>. When \<^verbatim>\<open>strtol\<close> converts
  nothing the pointer stays and the loop goes on storing zeros at rising addresses until it
  leaves the buffer; so the loop ends for every line, with a result or in undefined behaviour.
\<close>

function load_words :: "string \<Rightarrow> loader \<Rightarrow> loader option" where
  "load_words ptr ld =
     (if at_line_end ptr then Some ld
      else (case store_bytes (ld_addr ld) (word_of_int (fst (strtol16 ptr))) [0 ..< 4] (ld_mem ld) of
              None \<Rightarrow> None
            | Some m' \<Rightarrow>
                load_words (skip_spaces (snd (strtol16 ptr)))
                  (ld\<lparr>ld_addr := ld_addr ld + 4, ld_mem := m',
                      ld_stored := ld_stored ld @ [(ld_addr ld, word_of_int (fst (strtol16 ptr)))]\<rparr>)))"
  by pat_completeness auto
termination
proof (relation "measures [\<lambda>(ptr, ld). length ptr, \<lambda>(ptr, ld). nat (int (length (ld_mem ld)) - ld_addr ld)]")
  show "wf (measures [\<lambda>(ptr, ld). length ptr, \<lambda>(ptr, ld :: loader). nat (int (length (ld_mem ld)) - ld_addr ld)])"
    by simp
next
  fix ptr :: string and ld :: loader and m' :: "byte list"
  assume s: "store_bytes (ld_addr ld) (word_of_int (fst (strtol16 ptr))) [0 ..< 4] (ld_mem ld) = Some m'"
  have l: "length (skip_spaces (snd (strtol16 ptr))) \<le> length ptr"
    using length_skip_spaces [of "snd (strtol16 ptr)"] length_strtol16 [of ptr] by simp
  from store_bytes_length [OF s] have len: "length m' = length (ld_mem ld)" .
  from store_bytes_range [OF s, of 0] have "0 \<le> ld_addr ld" "ld_addr ld < int (length (ld_mem ld))" by simp_all
  with len have "nat (int (length m') - (ld_addr ld + 4)) < nat (int (length (ld_mem ld)) - ld_addr ld)" by simp
  with l show "((skip_spaces (snd (strtol16 ptr)),
          ld\<lparr>ld_addr := ld_addr ld + 4, ld_mem := m',
             ld_stored := ld_stored ld @ [(ld_addr ld, word_of_int (fst (strtol16 ptr)))]\<rparr>), ptr, ld)
      \<in> measures [\<lambda>(ptr, ld). length ptr, \<lambda>(ptr, ld). nat (int (length (ld_mem ld)) - ld_addr ld)]"
    by auto
qed

text \<open>\<^verbatim>\<open>fgets(buf, n, f)\<close>: at most \<open>n - 1\<close> characters, up to and with the first newline.\<close>

fun fgets_chars :: "nat \<Rightarrow> string \<Rightarrow> string \<times> string" where
  "fgets_chars 0 f = ([], f)"
| "fgets_chars (Suc n) [] = ([], [])"
| "fgets_chars (Suc n) (c # f) =
     (if c = CHR 0x0A then ([c], f)
      else (case fgets_chars n f of (buf, rest) \<Rightarrow> (c # buf, rest)))"

definition fgets :: "nat \<Rightarrow> string \<Rightarrow> (string \<times> string) option" where
  "fgets n f = (if f = [] then None else Some (fgets_chars (n - 1) f))"

text \<open>
  The body of the outer loop for one buffer: comment lines are skipped, \<^verbatim>\<open>@\<close> sets the
  address to four times the number that follows (the product is computed in \<^verbatim>\<open>long\<close>, where
  an overflow is undefined, and converted to \<^verbatim>\<open>int\<close>), then the words of the line are stored.
\<close>

definition load_line :: "string \<Rightarrow> loader \<Rightarrow> loader option" where
  "load_line buf ld =
     (case buf of
        [] \<Rightarrow> load_words buf ld
      | c # ptr \<Rightarrow>
          if c = CHR ''#'' \<or> c = CHR ''/'' then Some ld
          else if c = CHR ''@''
          then (let v = fst (strtol16 ptr) * 4
                in if - (2 ^ 63) \<le> v \<and> v < 2 ^ 63
                   then load_words (skip_spaces (snd (strtol16 ptr)))
                          (ld\<lparr>ld_addr := sint (word_of_int v :: 32 word)\<rparr>)
                   else None)
          else load_words buf ld)"

lemma fgets_chars_shorter: "length (snd (fgets_chars n f)) \<le> length f"
  by (induction n f rule: fgets_chars.induct) (auto split: prod.splits)

lemma fgets_chars_cons_shorter:
  assumes "0 < n"
  shows "length (snd (fgets_chars n (c # f))) \<le> length f"
proof -
  from assms obtain k where n: "n = Suc k" by (cases n) auto
  show ?thesis
    using fgets_chars_shorter [of k f] unfolding n by (auto split: prod.splits)
qed

lemma fgets_shorter: "fgets 256 f = Some (buf, rest) \<Longrightarrow> length rest < length f"
proof -
  assume a: "fgets 256 f = Some (buf, rest)"
  then obtain c f' where f: "f = c # f'" by (cases f) (auto simp: fgets_def)
  with a have "rest = snd (fgets_chars (256 - 1) (c # f'))" by (simp add: fgets_def)
  also have "length \<dots> \<le> length f'" by (rule fgets_chars_cons_shorter) simp
  finally show ?thesis using f by simp
qed

text \<open>\<^verbatim>\<open>while (fgets(buf, sizeof(buf), ftmp) != NULL) { ... }\<close> with \<^verbatim>\<open>char buf[256]\<close>.\<close>

function load_lines :: "string \<Rightarrow> loader \<Rightarrow> loader option" where
  "load_lines f ld =
     (case fgets 256 f of
        None \<Rightarrow> Some ld
      | Some (buf, rest) \<Rightarrow>
          (case load_line buf ld of
             None \<Rightarrow> None
           | Some ld' \<Rightarrow> load_lines rest ld'))"
  by pat_completeness auto
termination
  by (relation "measure (\<lambda>(f, ld). length f)") (auto dest: fgets_shorter)

text \<open>\<^verbatim>\<open>memset(mem, 0, mem_sz)\<close>, then the loader from address 0.\<close>

definition memset :: "byte list \<Rightarrow> byte \<Rightarrow> int \<Rightarrow> byte list option" where
  "memset m v n =
     (if 0 \<le> n \<and> n \<le> int (length m) then Some (replicate (nat n) v @ drop (nat n) m) else None)"

definition load_program :: "config \<Rightarrow> string \<Rightarrow> byte list \<Rightarrow> loader option" where
  "load_program cfg f m =
     (case memset m 0 (mem_sz cfg) of
        None \<Rightarrow> None
      | Some m0 \<Rightarrow> load_lines f \<lparr>ld_addr = 0, ld_mem = m0, ld_stored = []\<rparr>)"

section \<open>Writing the reference and the dump file\<close>

text \<open>
  \<^verbatim>\<open>int data = mem[addr] | (mem[addr+1] << 8) | (mem[addr+2] << 16) | (mem[addr+3] << 24);\<close>
\<close>

definition read_word :: "byte list \<Rightarrow> int \<Rightarrow> 32 word option" where
  "read_word m a = do {
     b0 \<leftarrow> arr_get m a;
     b1 \<leftarrow> arr_get m (a + 1);
     b2 \<leftarrow> arr_get m (a + 2);
     b3 \<leftarrow> arr_get m (a + 3);
     Some (ucast b0 OR push_bit 8 (ucast b1) OR push_bit 16 (ucast b2) OR push_bit 24 (ucast b3))
   }"

text \<open>\<^verbatim>\<open>%08x\<close> of a 32-bit value: eight lower-case hexadecimal digits.\<close>

definition hex_digit :: "nat \<Rightarrow> char" where
  "hex_digit n = ''0123456789abcdef'' ! n"

definition hex08 :: "32 word \<Rightarrow> string" where
  "hex08 w = map (\<lambda>i. hex_digit (unat (drop_bit (4 * i) w AND 15))) [7, 6, 5, 4, 3, 2, 1, 0]"

text \<open>
  A \<^verbatim>\<open>FILE*\<close> opened for writing is the list of the lines written so far, and \<open>None\<close> when
  \<^verbatim>\<open>fopen\<close> returned \<^verbatim>\<open>NULL\<close>; whether a file opens is given from outside. \<^verbatim>\<open>main\<close> reports a
  failed \<^verbatim>\<open>fopen\<close> on \<^verbatim>\<open>stderr\<close> and goes on.
\<close>

definition fopen_w :: "bool \<Rightarrow> string list option" where
  "fopen_w ok = (if ok then Some [] else None)"

text \<open>
  \<^verbatim>\<open>for (addr = start; addr < end; addr += 4) { ...; fprintf(ftmp, "%08x\n", data); } fclose(ftmp);\<close>
  Both \<^verbatim>\<open>fprintf\<close> and \<^verbatim>\<open>fclose\<close> on a null pointer are undefined. The result is the
  content of the closed file.
\<close>

function write_words :: "string list option \<Rightarrow> byte list \<Rightarrow> int \<Rightarrow> int \<Rightarrow> string list option" where
  "write_words ftmp m a e =
     (if a < e
      then (case read_word m a of
              None \<Rightarrow> None
            | Some d \<Rightarrow>
                (case ftmp of
                   None \<Rightarrow> None
                 | Some ls \<Rightarrow> write_words (Some (ls @ [hex08 d])) m (a + 4) e))
      else ftmp)"
  by pat_completeness auto
termination
  by (relation "measure (\<lambda>(ftmp, m, a, e). nat (e - a))") auto

section \<open>The batch of programs\<close>

text \<open>
  The numbers of one line of the program list, and what the three \<^verbatim>\<open>fopen\<close> calls for that
  line give: the content of the program file if it opens, and whether the reference file and
  the dump file open.
\<close>

record descriptor =
  ref_start :: int
  ref_end :: int
  dump_start :: int
  dump_end :: int

record opened =
  prog_file :: "string option"
  ref_file :: bool
  dump_file :: bool

text \<open>
  The body of the \<^verbatim>\<open>while (getline(...) > 0)\<close> loop for a line with seven fields. A program
  file that does not open ends the iteration (\<^verbatim>\<open>continue\<close>) with no output. The outer
  \<open>None\<close> is a simulation that never ends, \<open>Some None\<close> undefined behaviour.
\<close>

definition run_program ::
  "('s Vvproc_top \<Rightarrow> 's Vvproc_top) \<Rightarrow> config \<Rightarrow> descriptor \<times> opened \<Rightarrow> 's sim \<Rightarrow>
     ('s sim \<times> (string list \<times> string list) option) option option" where
  "run_program dut cfg p s =
     (case prog_file (snd p) of
        None \<Rightarrow> Some (Some (s, None))
      | Some f \<Rightarrow>
          (case load_program cfg f (mem s) of
             None \<Rightarrow> Some None
           | Some ld \<Rightarrow>
               (case write_words (fopen_w (ref_file (snd p))) (ld_mem ld)
                       (ref_start (fst p)) (ref_end (fst p)) of
                  None \<Rightarrow> Some None
                | Some ref \<Rightarrow>
                    (case simulate dut cfg (s\<lparr>mem := ld_mem ld\<rparr>) of
                       None \<Rightarrow> None
                     | Some None \<Rightarrow> Some None
                     | Some (Some s') \<Rightarrow>
                         (case write_words (fopen_w (dump_file (snd p))) (mem s')
                                 (dump_start (fst p)) (dump_end (fst p)) of
                            None \<Rightarrow> Some None
                          | Some dump \<Rightarrow> Some (Some (s', Some (ref, dump))))))))"

primrec run_batch ::
  "('s Vvproc_top \<Rightarrow> 's Vvproc_top) \<Rightarrow> config \<Rightarrow> (descriptor \<times> opened) list \<Rightarrow> 's sim \<Rightarrow>
     ('s sim \<times> (string list \<times> string list) option list) option option" where
  "run_batch dut cfg [] s = Some (Some (s, []))"
| "run_batch dut cfg (p # ps) s =
     (case run_program dut cfg p s of
        None \<Rightarrow> None
      | Some None \<Rightarrow> Some None
      | Some (Some (s', out)) \<Rightarrow>
          (case run_batch dut cfg ps s' of
             None \<Rightarrow> None
           | Some None \<Rightarrow> Some None
           | Some (Some (s'', outs)) \<Rightarrow> Some (Some (s'', out # outs))))"

declare load_words.simps [simp del] load_lines.simps [simp del] write_words.simps [simp del]

section \<open>Observations\<close>

text \<open>
  The little-endian value of the bytes \<open>addr + i\<close> of a buffer, for the byte positions
  \<open>i\<close> of a list: the memory word at \<open>addr\<close>.
\<close>

primrec mem_word :: "byte list \<Rightarrow> int \<Rightarrow> nat list \<Rightarrow> 64 word" where
  "mem_word m addr [] = 0"
| "mem_word m addr (i # is) = push_bit (i * 8) (ucast (m ! nat (addr + int i))) OR mem_word m addr is"

text \<open>The three queues read at one index.\<close>

definition slot :: "'s sim \<Rightarrow> nat \<Rightarrow> bool \<times> 64 word \<times> bool" where
  "slot s i = (mem_rvalid_queue s ! i, mem_rdata_queue s ! i, mem_err_queue s ! i)"

text \<open>The response that a cycle starting in state \<open>s\<close> puts into slot 0.\<close>

definition pushed_response :: "config \<Rightarrow> 's sim \<Rightarrow> (bool \<times> 64 word \<times> bool) option" where
  "pushed_response cfg s =
     (case read_memory_request cfg s of None \<Rightarrow> None | Some s' \<Rightarrow> Some (slot s' 0))"

text \<open>The values on the three response ports of the model.\<close>

definition delivered :: "'s sim \<Rightarrow> bool \<times> 64 word \<times> bool" where
  "delivered s = (mem_rvalid_i (vtop s), mem_rdata_i (vtop s), mem_err_i (vtop s))"

text \<open>
  Cycles are counted from 0 at the first pass through the loop body. The response pushed in
  cycle \<open>k\<close> of a run from \<open>s0\<close>, and the values on the response ports at the end of
  cycle \<open>k\<close>.
\<close>

definition pushed_in ::
  "('s Vvproc_top \<Rightarrow> 's Vvproc_top) \<Rightarrow> config \<Rightarrow> 's sim \<Rightarrow> nat \<Rightarrow> (bool \<times> 64 word \<times> bool) option" where
  "pushed_in dut cfg s0 k =
     (case cycles dut cfg k s0 of None \<Rightarrow> None | Some s \<Rightarrow> pushed_response cfg s)"

definition delivered_in ::
  "('s Vvproc_top \<Rightarrow> 's Vvproc_top) \<Rightarrow> config \<Rightarrow> 's sim \<Rightarrow> nat \<Rightarrow> (bool \<times> 64 word \<times> bool) option" where
  "delivered_in dut cfg s0 k =
     (case cycles dut cfg (Suc k) s0 of None \<Rightarrow> None | Some s \<Rightarrow> Some (delivered s))"

text \<open>
  The condition that starts the count of \<^verbatim>\<open>end_cnt\<close>, and a run in which it holds for the
  first time at the end of cycle \<open>C\<close>.
\<close>

definition zero_request :: "'s sim \<Rightarrow> bool" where
  "zero_request s \<longleftrightarrow> mem_req_o (vtop s) \<and> mem_addr_o (vtop s) = 0"

definition first_zero_request ::
  "('s Vvproc_top \<Rightarrow> 's Vvproc_top) \<Rightarrow> config \<Rightarrow> 's sim \<Rightarrow> nat \<Rightarrow> bool" where
  "first_zero_request dut cfg s0 C \<longleftrightarrow>
     (\<forall>k\<in>set [0 ..< C]. case cycles dut cfg (Suc k) s0 of None \<Rightarrow> False | Some s \<Rightarrow> \<not> zero_request s) \<and>
     (case cycles dut cfg (Suc C) s0 of None \<Rightarrow> False | Some s \<Rightarrow> zero_request s)"

text \<open>
  Modelled from the spec: the re-parser of a dump is not part of the sources. A line is read as
  a hexadecimal number, most significant digit first.
\<close>

definition parse_hex :: "string \<Rightarrow> 32 word" where
  "parse_hex l = foldl (\<lambda>a c. 16 * a + word_of_int (xdigit_val c)) 0 l"

text \<open>The addresses \<open>a, a + 4, ...\<close> below \<open>e\<close>, and the word last stored at an address.\<close>

definition word_addrs :: "int \<Rightarrow> int \<Rightarrow> int list" where
  "word_addrs a e = map (\<lambda>k. a + 4 * int k) [0 ..< nat ((e - a + 3) div 4)]"

definition last_stored :: "(int \<times> 32 word) list \<Rightarrow> int \<Rightarrow> 32 word" where
  "last_stored log a = (case filter (\<lambda>p. fst p = a) log of [] \<Rightarrow> 0 | ps \<Rightarrow> snd (last ps))"

text \<open>
  What the loader keeps true: its address is a multiple of four, and every aligned word of
  the buffer is the word last stored at its address, or zero where nothing was stored.
\<close>

definition loaded :: "loader \<Rightarrow> bool" where
  "loaded ld \<longleftrightarrow>
     ld_addr ld mod 4 = 0 \<and>
     (\<forall>a. a mod 4 = 0 \<longrightarrow> 0 \<le> a \<longrightarrow> a + 3 < int (length (ld_mem ld)) \<longrightarrow>
          read_word (ld_mem ld) a = Some (last_stored (ld_stored ld) a))"

text \<open>
  Two objects of the model with the same outbound ports and the same internal state; two
  responses that agree in the valid flag and, when it is set, in data and error; two objects
  that differ at most in the data and error ports of a response that is not valid.
\<close>

definition same_outputs :: "'s Vvproc_top \<Rightarrow> 's Vvproc_top \<Rightarrow> bool" where
  "same_outputs t1 t2 \<longleftrightarrow>
     mem_req_o t1 = mem_req_o t2 \<and> mem_addr_o t1 = mem_addr_o t2 \<and> mem_we_o t1 = mem_we_o t2 \<and>
     mem_be_o t1 = mem_be_o t2 \<and> mem_wdata_o t1 = mem_wdata_o t2 \<and> core t1 = core t2"

definition same_response :: "bool \<times> 64 word \<times> bool \<Rightarrow> bool \<times> 64 word \<times> bool \<Rightarrow> bool" where
  "same_response r1 r2 \<longleftrightarrow> fst r1 = fst r2 \<and> (fst r1 \<longrightarrow> r1 = r2)"

definition same_ports :: "'s Vvproc_top \<Rightarrow> 's Vvproc_top \<Rightarrow> bool" where
  "same_ports t1 t2 \<longleftrightarrow>
     clk_i t1 = clk_i t2 \<and> rst_ni t1 = rst_ni t2 \<and>
     same_response (mem_rvalid_i t1, mem_rdata_i t1, mem_err_i t1)
                   (mem_rvalid_i t2, mem_rdata_i t2, mem_err_i t2) \<and>
     same_outputs t1 t2"

text \<open>
  Two assumptions on a device: its evaluation does not depend on the data and error ports
  while the valid port is low; and it leaves the reset sequence with outputs and an internal
  state that do not depend on the state before.
\<close>

definition ignores_invalid_response :: "('s Vvproc_top \<Rightarrow> 's Vvproc_top) \<Rightarrow> bool" where
  "ignores_invalid_response dut \<longleftrightarrow> (\<forall>t1 t2. same_ports t1 t2 \<longrightarrow> same_outputs (dut t1) (dut t2))"

definition resets :: "('s Vvproc_top \<Rightarrow> 's Vvproc_top) \<Rightarrow> config \<Rightarrow> bool" where
  "resets dut cfg \<longleftrightarrow>
     (\<forall>s1 s2 e1 e2. reset_sequence dut cfg s1 = Some e1 \<longrightarrow> reset_sequence dut cfg s2 = Some e2 \<longrightarrow>
        same_outputs (vtop e1) (vtop e2))"

text \<open>
  Two simulation states that differ at most in the trace, the time, and the data and error
  fields of queue slots and ports that are not valid.
\<close>

definition alike :: "'s sim \<Rightarrow> 's sim \<Rightarrow> bool" where
  "alike s1 s2 \<longleftrightarrow>
     mem s1 = mem s2 \<and>
     length (mem_rvalid_queue s1) = length (mem_rvalid_queue s2) \<and>
     length (mem_rdata_queue s1) = length (mem_rdata_queue s2) \<and>
     length (mem_err_queue s1) = length (mem_err_queue s2) \<and>
     (\<forall>i < length (mem_rvalid_queue s1). same_response (slot s1 i) (slot s2 i)) \<and>
     same_ports (vtop s1) (vtop s2)"

definition alike_allocated :: "config \<Rightarrow> 's sim \<Rightarrow> 's sim \<Rightarrow> bool" where
  "alike_allocated cfg s1 s2 \<longleftrightarrow> allocated cfg s1 \<and> allocated cfg s2 \<and> alike s1 s2"

text \<open>
  The state in which the first cycle of a program starts, after loading and reset; the
  response ports at the end of cycle \<open>k\<close> of that program; the object of the model after
  the three evaluations of a cycle that delivers the response \<open>r\<close>; two results of
  \<open>run_program\<close> with the same output files.
\<close>

definition program_entry ::
  "('s Vvproc_top \<Rightarrow> 's Vvproc_top) \<Rightarrow> config \<Rightarrow> string \<Rightarrow> 's sim \<Rightarrow> 's sim option" where
  "program_entry dut cfg f s =
     (case load_program cfg f (mem s) of
        None \<Rightarrow> None
      | Some ld \<Rightarrow> reset_sequence dut cfg (s\<lparr>mem := ld_mem ld\<rparr>))"

definition program_signals ::
  "('s Vvproc_top \<Rightarrow> 's Vvproc_top) \<Rightarrow> config \<Rightarrow> string \<Rightarrow> 's sim \<Rightarrow> nat \<Rightarrow>
     (bool \<times> 64 word \<times> bool) option" where
  "program_signals dut cfg f s k =
     (case program_entry dut cfg f s of None \<Rightarrow> None | Some e \<Rightarrow> delivered_in dut cfg e k)"

definition cycle_top ::
  "('s Vvproc_top \<Rightarrow> 's Vvproc_top) \<Rightarrow> 's Vvproc_top \<Rightarrow> bool \<times> 64 word \<times> bool \<Rightarrow> 's Vvproc_top" where
  "cycle_top dut t r =
     eval dut ((eval dut ((eval dut (t\<lparr>clk_i := True\<rparr>))
       \<lparr>mem_rvalid_i := fst r, mem_rdata_i := fst (snd r), mem_err_i := snd (snd r)\<rparr>))\<lparr>clk_i := False\<rparr>)"

definition same_output :: "'a \<times> 'b \<Rightarrow> 'c \<times> 'b \<Rightarrow> bool" where
  "same_output x y \<longleftrightarrow> snd x = snd y"

text \<open>
  A configuration with a bus of 8, 16, 32 or 64 bits whose width in bytes divides the memory
  size, and a memory size that \<^verbatim>\<open>main\<close> can allocate.
\<close>

definition bus_aligned :: "config \<Rightarrow> bool" where
  "bus_aligned cfg \<longleftrightarrow>
     0 < mem_sz cfg \<and> mem_sz cfg < 2 ^ 31 \<and> mem_w cfg \<in> {8, 16, 32, 64} \<and>
     c_div (mem_w cfg) 8 dvd mem_sz cfg"

text \<open>
  The effect of the shift loop on one queue, started at \<^verbatim>\<open>i = n\<close>: the slots \<open>1 .. n\<close>
  take the value of their lower neighbour.
\<close>

definition shifted :: "nat \<Rightarrow> 'a list \<Rightarrow> 'a list" where
  "shifted n q = map (\<lambda>i. if 1 \<le> i \<and> i \<le> n then q ! (i - 1) else q ! i) [0 ..< length q]"

section \<open>A scripted device for concrete runs\<close>

text \<open>
  A request is the tuple of the five outbound ports: valid, address, write enable, byte
  enable, write data. The scripted device holds its outputs while the clock is high and
  moves to the next request of its script at every evaluation with the clock low; in reset
  it is idle and rewinds the script.
\<close>

type_synonym request = "bool \<times> 32 word \<times> bool \<times> 8 word \<times> 64 word"

definition script_at :: "request list \<Rightarrow> nat \<Rightarrow> request" where
  "script_at script k = (if k < length script then script ! k else (False, 0, False, 0, 0))"

definition stub_dut :: "request list \<Rightarrow> nat Vvproc_top \<Rightarrow> nat Vvproc_top" where
  "stub_dut script t =
     (if \<not> rst_ni t
      then t\<lparr>mem_req_o := False, mem_addr_o := 0, mem_we_o := False, mem_be_o := 0,
             mem_wdata_o := 0, core := 0\<rparr>
      else if clk_i t then t
      else (case script_at script (core t) of
              (r, a, w, b, d) \<Rightarrow>
                t\<lparr>mem_req_o := r, mem_addr_o := a, mem_we_o := w, mem_be_o := b,
                   mem_wdata_o := d, core := Suc (core t)\<rparr>))"

text \<open>A state with zeroed buffers, and the state in which the first cycle of a run starts.\<close>

definition fresh_sim :: "config \<Rightarrow> nat sim" where
  "fresh_sim cfg =
     \<lparr>mem = replicate (nat (mem_sz cfg)) 0,
      mem_rvalid_queue = replicate (nat (mem_latency cfg)) False,
      mem_rdata_queue = replicate (nat (mem_latency cfg)) 0,
      mem_err_queue = replicate (nat (mem_latency cfg)) False,
      vtop = \<lparr>clk_i = False, rst_ni = False, mem_rvalid_i = False, mem_rdata_i = 0,
               mem_err_i = False, mem_req_o = False, mem_addr_o = 0, mem_we_o = False,
               mem_be_o = 0, mem_wdata_o = 0, core = 0\<rparr>,
      fcsv = [], main_time = 0\<rparr>"

definition after_reset :: "request list \<Rightarrow> config \<Rightarrow> nat sim option" where
  "after_reset script cfg = reset_sequence (stub_dut script) cfg (fresh_sim cfg)"

text \<open>
  The configurations, scripts and states of the concrete runs below: a 32-bit bus on 16
  bytes of memory with latency 2 and three extra cycles; a device whose first request writes
  \<^verbatim>\<open>0x11223344\<close> to address 4 with byte enable \<^verbatim>\<open>0101\<close>; a device whose first request
  reads address 16, one past the buffer; a device whose third request goes to address 0;
  the same configuration with latency 0 and with no extra cycles.
\<close>

definition cfg_w :: config where
  "cfg_w = \<lparr>mem_w = 32, mem_sz = 16, mem_latency = 2, extra_cycles = 3\<rparr>"

definition script_w :: "request list" where
  "script_w = [(True, 4, True, 5, 0x11223344)]"

definition dut_w :: "nat Vvproc_top \<Rightarrow> nat Vvproc_top" where
  "dut_w = stub_dut script_w"

definition sim_w :: "nat sim" where
  "sim_w = the (after_reset script_w cfg_w)"

definition sim_e :: "nat sim" where
  "sim_e = the (after_reset [(True, 16, False, 0, 0)] cfg_w)"

definition script_t :: "request list" where
  "script_t = [(True, 8, False, 0, 0), (True, 4, False, 0, 0), (True, 0, True, 15, 1)]"

definition dut_t :: "nat Vvproc_top \<Rightarrow> nat Vvproc_top" where
  "dut_t = stub_dut script_t"

definition sim_t :: "nat sim" where
  "sim_t = the (after_reset script_t cfg_w)"

definition cfg_z :: config where
  "cfg_z = \<lparr>mem_w = 32, mem_sz = 16, mem_latency = 0, extra_cycles = 3\<rparr>"

definition cfg_0 :: config where
  "cfg_0 = cfg_w\<lparr>extra_cycles := 0\<rparr>"


text \<open>
  Two lines of a program list for the same image of two words: for the first the reference
  file does not open, for the second every file opens.
\<close>

definition prog_u :: "descriptor \<times> opened" where
  "prog_u = (\<lparr>ref_start = 0, ref_end = 8, dump_start = 0, dump_end = 8\<rparr>,
             \<lparr>prog_file = Some ''11223344 55667788'', ref_file = False, dump_file = True\<rparr>)"

definition prog_ok :: "descriptor \<times> opened" where
  "prog_ok = (\<lparr>ref_start = 0, ref_end = 8, dump_start = 0, dump_end = 8\<rparr>,
              \<lparr>prog_file = Some ''11223344 55667788'', ref_file = True, dump_file = True\<rparr>)"

text \<open>An image file of two words from word address 1, and the loader state it leaves.\<close>

definition img_w :: string where
  "img_w = ''@1 11223344 deadBEEF''"

definition ld_w :: loader where
  "ld_w = the (load_program cfg_w img_w (replicate 16 5))"

text \<open>
  An image file of three words from address 0 and the loader state it leaves; an image file
  of one word whose line ends with a carriage return and a newline.
\<close>

definition img_u :: string where
  "img_u = ''a1a2a3a4 b1b2b3b4 c1c2c3c4''"

definition ld_u :: loader where
  "ld_u = the (load_program cfg_w img_u (replicate 16 5))"

definition img_r :: string where
  "img_r = ''12345678'' @ [CHR 0x0D, CHR 0x0A]"

text \<open>The state that a batch with the one line \<open>prog_ok\<close> leaves.\<close>

definition sim_a :: "nat sim" where
  "sim_a = fst (the (the (run_batch dut_t cfg_w [prog_ok] (fresh_sim cfg_w))))"

section \<open>Properties of the array accesses and the byte loops\<close>

lemma arr_set_Some: "arr_set a i v = Some a' \<longleftrightarrow> 0 \<le> i \<and> i < int (length a) \<and> a' = a[nat i := v]"
  by (auto simp: arr_set_def)

lemma arr_get_Some: "arr_get a i = Some v \<longleftrightarrow> 0 \<le> i \<and> i < int (length a) \<and> v = a ! nat i"
  by (auto simp: arr_get_def)

lemma write_bytes_length: "write_bytes addr be wdata is m = Some m' \<Longrightarrow> length m' = length m"
  by (induction "is" arbitrary: m) (auto simp: arr_set_Some split: if_splits option.splits)

lemma write_bytes_nth:
  "write_bytes addr be wdata is m = Some m' \<Longrightarrow> distinct is \<Longrightarrow> j < length m \<Longrightarrow>
   m' ! j = (if \<exists>i\<in>set is. int j = addr + int i \<and> bit be i
             then ucast (drop_bit (nat (int j - addr) * 8) wdata) else m ! j)"
proof (induction "is" arbitrary: m)
  case Nil
  then show ?case by simp
next
  case (Cons i "is")
  show ?case
  proof (cases "bit be i")
    case False
    with Cons.prems have "write_bytes addr be wdata is m = Some m'"
      by (simp split: if_splits)
    from Cons.IH [OF this] Cons.prems False show ?thesis by auto
  next
    case True
    with Cons.prems obtain m1 where m1: "arr_set m (addr + int i) (ucast (drop_bit (i * 8) wdata)) = Some m1"
      and w: "write_bytes addr be wdata is m1 = Some m'"
      by (auto split: option.splits if_splits)
    from m1 have r: "0 \<le> addr + int i" "addr + int i < int (length m)"
      and m1_eq: "m1 = m[nat (addr + int i) := ucast (drop_bit (i * 8) wdata)]"
      by (auto simp: arr_set_Some)
    have len: "j < length m1" using Cons.prems m1_eq by simp
    from Cons.prems have d: "distinct is" and ni: "i \<notin> set is" by auto
    note ih = Cons.IH [OF w d len]
    show ?thesis
    proof (cases "int j = addr + int i")
      case eq: True
      then have "\<not> (\<exists>k\<in>set is. int j = addr + int k \<and> bit be k)" using ni by auto
      with ih have "m' ! j = m1 ! j" by simp
      moreover have nj: "nat (addr + int i) = j" using eq [symmetric] by simp
      moreover have "m1 ! j = ucast (drop_bit (i * 8) wdata)"
        using nj m1_eq Cons.prems(3) by simp
      moreover have "nat (int j - addr) = i" using eq by simp
      ultimately show ?thesis using eq True by auto
    next
      case neq: False
      then have "nat (addr + int i) \<noteq> j" using r by auto
      then have "m1 ! j = m ! j" using m1_eq by simp
      with ih neq show ?thesis by auto
    qed
  qed
qed

lemma bit_byte_enable: "bit (be :: 8 word) i \<Longrightarrow> i * 8 < 64"
  using bit_imp_le_length [of be i] by simp

lemma write_bytes_Some:
  "\<forall>i\<in>set is. i < 32 \<and> 0 \<le> addr + int i \<and> addr + int i < int (length m) \<Longrightarrow>
   \<exists>m'. write_bytes addr be wdata is m = Some m'"
  by (induction "is" arbitrary: m) (auto simp: arr_set_def dest: bit_byte_enable)

lemma read_bytes_eq:
  "read_bytes m addr is q = Some q' \<Longrightarrow> q' = q[0 := q ! 0 OR mem_word m addr is]"
proof (induction "is" arbitrary: q)
  case Nil
  then show ?case by simp
next
  case (Cons i "is")
  from Cons.prems obtain b d q1 where
    b: "arr_get m (addr + int i) = Some b" and d: "arr_get q 0 = Some d"
    and q1: "arr_set q 0 (d OR push_bit (i * 8) (ucast b)) = Some q1"
    and r: "read_bytes m addr is q1 = Some q'"
    by (auto split: option.splits if_splits)
  from b have b_eq: "b = m ! nat (addr + int i)" by (simp add: arr_get_Some)
  from d have d_eq: "d = q ! 0" and ne: "0 < length q" by (auto simp: arr_get_Some)
  from q1 have q1_eq: "q1 = q[0 := d OR push_bit (i * 8) (ucast b)]" by (simp add: arr_set_Some)
  from Cons.IH [OF r] have "q' = q1[0 := q1 ! 0 OR mem_word m addr is]" .
  then show ?case using q1_eq b_eq d_eq ne by (simp add: or.assoc)
qed

lemma read_bytes_Some:
  "0 < length q \<Longrightarrow>
   \<forall>i\<in>set is. i * 8 < 64 \<and> 0 \<le> addr + int i \<and> addr + int i < int (length m) \<Longrightarrow>
   \<exists>q'. read_bytes m addr is q = Some q'"
  by (induction "is" arbitrary: q) (auto simp: arr_get_def arr_set_def)

lemma distinct_bus_bytes: "distinct (bus_bytes cfg)"
  by (simp add: bus_bytes_def)

section \<open>Properties of the queue shift\<close>

lemma length_shifted [simp]: "length (shifted n q) = length q"
  by (simp add: shifted_def)

lemma nth_shifted: "i < length q \<Longrightarrow> shifted n q ! i = (if 1 \<le> i \<and> i \<le> n then q ! (i - 1) else q ! i)"
  by (simp add: shifted_def)

lemma shifted_0 [simp]: "shifted 0 q = q"
  by (rule nth_equalityI) (simp_all add: nth_shifted)

lemma shifted_Suc: "Suc n < length q \<Longrightarrow> shifted (Suc n) q = shifted n (q[Suc n := q ! n])"
  by (rule nth_equalityI) (auto simp: nth_shifted nth_list_update)

lemma advance_eq:
  "n < length (mem_rvalid_queue s) \<Longrightarrow> n < length (mem_rdata_queue s) \<Longrightarrow>
   n < length (mem_err_queue s) \<Longrightarrow>
   advance n s = Some (s\<lparr>mem_rvalid_queue := shifted n (mem_rvalid_queue s),
                          mem_rdata_queue := shifted n (mem_rdata_queue s),
                          mem_err_queue := shifted n (mem_err_queue s)\<rparr>)"
proof (induction n arbitrary: s)
  case 0
  then show ?case by simp
next
  case (Suc n)
  let ?s1 = "s\<lparr>mem_rvalid_queue := (mem_rvalid_queue s)[Suc n := mem_rvalid_queue s ! n],
                mem_rdata_queue := (mem_rdata_queue s)[Suc n := mem_rdata_queue s ! n],
                mem_err_queue := (mem_err_queue s)[Suc n := mem_err_queue s ! n]\<rparr>"
  have nat_eq: "nat (1 + int n) = Suc n" by simp
  from Suc.prems have step: "advance (Suc n) s = advance n ?s1"
    by (simp add: arr_get_def arr_set_def nat_eq)
  from Suc.prems have "advance n ?s1 = Some (?s1\<lparr>mem_rvalid_queue := shifted n (mem_rvalid_queue ?s1),
                          mem_rdata_queue := shifted n (mem_rdata_queue ?s1),
                          mem_err_queue := shifted n (mem_err_queue ?s1)\<rparr>)"
    by (intro Suc.IH) simp_all
  with step Suc.prems show ?case by (simp add: shifted_Suc)
qed

lemma advance_frame:
  "advance n s = Some s' \<Longrightarrow> mem s' = mem s \<and> vtop s' = vtop s \<and> fcsv s' = fcsv s \<and> main_time s' = main_time s"
  by (induction n arbitrary: s) (auto split: bind_splits)

section \<open>Properties of one cycle\<close>

lemma read_memory_request_SomeD:
  assumes "read_memory_request cfg s = Some s'"
  shows "\<exists>m. write_request cfg (vtop s) (mem s) = Some m \<and>
           0 < length (mem_rvalid_queue s) \<and> 0 < length (mem_rdata_queue s) \<and>
           0 < length (mem_err_queue s) \<and>
           s' = s\<lparr>mem := m,
                  mem_rvalid_queue := (mem_rvalid_queue s)[0 := mem_req_o (vtop s)],
                  mem_rdata_queue := (mem_rdata_queue s)
                     [0 := mem_word m (effective_addr cfg (mem_addr_o (vtop s))) (bus_bytes cfg)],
                  mem_err_queue := (mem_err_queue s)
                     [0 := mem_sz cfg \<le> effective_addr cfg (mem_addr_o (vtop s))]\<rparr>"
proof -
  let ?addr = "effective_addr cfg (mem_addr_o (vtop s))"
  from assms obtain m rv er rd0 rd where
    m: "write_request cfg (vtop s) (mem s) = Some m"
    and rv: "arr_set (mem_rvalid_queue s) 0 (mem_req_o (vtop s)) = Some rv"
    and er: "arr_set (mem_err_queue s) 0 (mem_sz cfg \<le> ?addr) = Some er"
    and rd0: "arr_set (mem_rdata_queue s) 0 0 = Some rd0"
    and rd: "read_bytes m ?addr (bus_bytes cfg) rd0 = Some rd"
    and s': "s' = s\<lparr>mem := m, mem_rvalid_queue := rv, mem_rdata_queue := rd, mem_err_queue := er\<rparr>"
    unfolding read_memory_request_def Let_def
    by (auto split: bind_splits)
  from read_bytes_eq [OF rd] rd0 have "rd = (mem_rdata_queue s)[0 := mem_word m ?addr (bus_bytes cfg)]"
    by (auto simp: arr_set_Some)
  with m rv er rd0 s' show ?thesis
    by (auto simp: arr_set_Some)
qed

lemma cycle_SomeD:
  assumes c: "cycle dut cfg s = Some s'" and a: "allocated cfg s"
  shows "\<exists>s1. read_memory_request cfg s = Some s1 \<and> 1 \<le> mem_latency cfg \<and>
           mem s' = mem s1 \<and>
           mem_rvalid_queue s' = shifted (nat (mem_latency cfg - 1)) (mem_rvalid_queue s1) \<and>
           mem_rdata_queue s' = shifted (nat (mem_latency cfg - 1)) (mem_rdata_queue s1) \<and>
           mem_err_queue s' = shifted (nat (mem_latency cfg - 1)) (mem_err_queue s1) \<and>
           delivered s' = slot s1 (nat (mem_latency cfg - 1)) \<and>
           fcsv s' = fcsv s @ [(rst_ni (vtop s'), mem_req_o (vtop s'), mem_addr_o (vtop s'))] \<and>
           main_time s' = main_time s + 1"
proof -
  from c obtain s1 s3 where s1: "read_memory_request cfg s = Some s1"
    and s3: "fulfill_memory_request dut cfg (s1\<lparr>vtop := eval dut ((vtop s1)\<lparr>clk_i := True\<rparr>)\<rparr>) = Some s3"
    and s': "s' = log_cycle (s3\<lparr>vtop := eval dut ((vtop s3)\<lparr>clk_i := False\<rparr>)\<rparr>)"
    unfolding cycle_def Let_def by (auto split: bind_splits)
  from read_memory_request_SomeD [OF s1] obtain m where
    pos: "0 < length (mem_rvalid_queue s)"
    and s1_eq: "s1 = s\<lparr>mem := m,
                  mem_rvalid_queue := (mem_rvalid_queue s)[0 := mem_req_o (vtop s)],
                  mem_rdata_queue := (mem_rdata_queue s)
                     [0 := mem_word m (effective_addr cfg (mem_addr_o (vtop s))) (bus_bytes cfg)],
                  mem_err_queue := (mem_err_queue s)
                     [0 := mem_sz cfg \<le> effective_addr cfg (mem_addr_o (vtop s))]\<rparr>"
    by blast
  from pos a have "0 < nat (mem_latency cfg)" unfolding allocated_def by metis
  then have L: "1 \<le> mem_latency cfg" by simp
  from a s1_eq have len: "length (mem_rvalid_queue s1) = nat (mem_latency cfg)"
    "length (mem_rdata_queue s1) = nat (mem_latency cfg)"
    "length (mem_err_queue s1) = nat (mem_latency cfg)"
    by (simp_all add: allocated_def)
  let ?n = "nat (mem_latency cfg - 1)"
  from L have n: "?n < nat (mem_latency cfg)" by simp
  let ?t = "eval dut ((vtop s1)\<lparr>clk_i := True, mem_rvalid_i := mem_rvalid_queue s1 ! ?n,
               mem_rdata_i := mem_rdata_queue s1 ! ?n, mem_err_i := mem_err_queue s1 ! ?n\<rparr>)"
  have "fulfill_memory_request dut cfg (s1\<lparr>vtop := eval dut ((vtop s1)\<lparr>clk_i := True\<rparr>)\<rparr>)
      = advance ?n (s1\<lparr>vtop := eval dut ((eval dut ((vtop s1)\<lparr>clk_i := True\<rparr>))
           \<lparr>mem_rvalid_i := mem_rvalid_queue s1 ! ?n,
               mem_rdata_i := mem_rdata_queue s1 ! ?n, mem_err_i := mem_err_queue s1 ! ?n\<rparr>)\<rparr>)"
    using L len n unfolding fulfill_memory_request_def Let_def
    by (simp add: arr_get_def)
  also have "\<dots> = Some (s1\<lparr>vtop := eval dut ((eval dut ((vtop s1)\<lparr>clk_i := True\<rparr>))
           \<lparr>mem_rvalid_i := mem_rvalid_queue s1 ! ?n,
               mem_rdata_i := mem_rdata_queue s1 ! ?n, mem_err_i := mem_err_queue s1 ! ?n\<rparr>),
         mem_rvalid_queue := shifted ?n (mem_rvalid_queue s1),
         mem_rdata_queue := shifted ?n (mem_rdata_queue s1),
         mem_err_queue := shifted ?n (mem_err_queue s1)\<rparr>)"
    using len n by (subst advance_eq) simp_all
  finally have s3_eq: "s3 = s1\<lparr>vtop := eval dut ((eval dut ((vtop s1)\<lparr>clk_i := True\<rparr>))
           \<lparr>mem_rvalid_i := mem_rvalid_queue s1 ! ?n,
               mem_rdata_i := mem_rdata_queue s1 ! ?n, mem_err_i := mem_err_queue s1 ! ?n\<rparr>),
         mem_rvalid_queue := shifted ?n (mem_rvalid_queue s1),
         mem_rdata_queue := shifted ?n (mem_rdata_queue s1),
         mem_err_queue := shifted ?n (mem_err_queue s1)\<rparr>"
    using s3 by simp
  have "mem s' = mem s1" "main_time s' = main_time s + 1"
    "mem_rvalid_queue s' = shifted ?n (mem_rvalid_queue s1)"
    "mem_rdata_queue s' = shifted ?n (mem_rdata_queue s1)"
    "mem_err_queue s' = shifted ?n (mem_err_queue s1)"
    "delivered s' = slot s1 ?n"
    "fcsv s' = fcsv s @ [(rst_ni (vtop s'), mem_req_o (vtop s'), mem_addr_o (vtop s'))]"
    unfolding s' s3_eq by (simp_all add: log_cycle_def delivered_def slot_def eval_def s1_eq)
  with s1 L show ?thesis by blast
qed

lemma cycle_mem:
  assumes "cycle dut cfg s = Some s'"
  shows "write_request cfg (vtop s) (mem s) = Some (mem s')"
proof -
  from assms obtain s1 s3 where s1: "read_memory_request cfg s = Some s1"
    and s3: "fulfill_memory_request dut cfg (s1\<lparr>vtop := eval dut ((vtop s1)\<lparr>clk_i := True\<rparr>)\<rparr>) = Some s3"
    and s': "s' = log_cycle (s3\<lparr>vtop := eval dut ((vtop s3)\<lparr>clk_i := False\<rparr>)\<rparr>)"
    unfolding cycle_def Let_def by (auto split: bind_splits)
  from s3 have "mem s3 = mem s1"
    unfolding fulfill_memory_request_def Let_def
    by (auto split: bind_splits dest: advance_frame)
  moreover from s' have "mem s' = mem s3" by (simp add: log_cycle_def)
  moreover from read_memory_request_SomeD [OF s1] have "write_request cfg (vtop s) (mem s) = Some (mem s1)"
    by auto
  ultimately show ?thesis by simp
qed

lemma sint_small: "uint (w :: 32 word) < 2 ^ 31 \<Longrightarrow> sint w = uint w"
proof -
  assume a: "uint w < 2 ^ 31"
  have "(0::int) \<le> uint w" by simp
  moreover have "- (2 ^ 31) \<le> (0::int)" by simp
  ultimately have "- (2 ^ 31) \<le> uint w" by (rule order_trans [rotated])
  with a show ?thesis by (simp add: sint_uint signed_take_bit_int_eq_self_iff)
qed

lemma effective_addr_range:
  assumes "0 < mem_sz cfg" "mem_sz cfg < 2 ^ 31"
  shows "0 \<le> effective_addr cfg a \<and> effective_addr cfg a < mem_sz cfg"
proof -
  let ?m = "word_of_int (mem_sz cfg) :: 32 word"
  let ?k = "word_of_int (NOT (c_div (mem_w cfg) 8 - 1)) :: 32 word"
  have um: "uint ?m = mem_sz cfg" using assms by (simp add: uint_word_of_int)
  then have "0 < ?m" using assms(1) by (simp add: word_less_def)
  then have "a mod ?m < ?m" by (rule word_mod_less_divisor)
  moreover have "(a mod ?m) AND ?k \<le> a mod ?m" by (rule word_and_le2)
  ultimately have "(a mod ?m) AND ?k < ?m" by simp
  then have lt: "uint ((a mod ?m) AND ?k) < mem_sz cfg" using um by (simp add: word_less_def)
  then have "uint ((a mod ?m) AND ?k) < 2 ^ 31" using assms(2) by simp
  then have "sint ((a mod ?m) AND ?k) = uint ((a mod ?m) AND ?k)" by (rule sint_small)
  with lt show ?thesis by (simp add: effective_addr_def)
qed

lemma allocated_fresh_sim: "allocated cfg (fresh_sim cfg)"
  by (simp add: allocated_def fresh_sim_def)

section \<open>The byte-enable mask\<close>

text \<open>
  C5. In a cycle that processes a write request, a byte of the memory is replaced by the
  byte of the write data at its position exactly if it lies in the addressed bus word and
  its byte-enable bit is set; every other byte, in particular every byte of the addressed
  word whose byte-enable bit is clear, holds after the cycle the value it held before.
\<close>

theorem byte_enable_frame:
  assumes "cycle dut cfg s = Some s'"
    and "mem_req_o (vtop s)" and "mem_we_o (vtop s)"
    and "j < length (mem s)"
  shows "mem s' ! j =
           (if \<exists>i\<in>set (bus_bytes cfg).
                 int j = effective_addr cfg (mem_addr_o (vtop s)) + int i \<and> bit (mem_be_o (vtop s)) i
            then ucast (drop_bit (nat (int j - effective_addr cfg (mem_addr_o (vtop s))) * 8)
                          (mem_wdata_o (vtop s)))
            else mem s ! j)"
proof -
  from cycle_mem [OF assms(1)] assms(2,3)
  have "write_bytes (effective_addr cfg (mem_addr_o (vtop s))) (mem_be_o (vtop s))
          (mem_wdata_o (vtop s)) (bus_bytes cfg) (mem s) = Some (mem s')"
    by (simp add: write_request_def)
  from write_bytes_nth [OF this distinct_bus_bytes assms(4)] show ?thesis .
qed

text \<open>
  The write of \<^verbatim>\<open>0x11223344\<close> to address 4 with byte enable \<^verbatim>\<open>0101\<close>: byte 5 is
  masked out and keeps its value.
\<close>

theorem byte_enable_frame_witness:
  "cycle dut_w cfg_w sim_w = Some (the (cycle dut_w cfg_w sim_w)) \<and>
   mem_req_o (vtop sim_w) \<and> mem_we_o (vtop sim_w) \<and> 5 < length (mem sim_w) \<and>
   mem (the (cycle dut_w cfg_w sim_w)) ! 5 = mem sim_w ! 5"
proof -
  have c: "cycle dut_w cfg_w sim_w = Some (the (cycle dut_w cfg_w sim_w))"
    by code_simp
  have r: "mem_req_o (vtop sim_w)" and w: "mem_we_o (vtop sim_w)" by code_simp+
  have l: "5 < length (mem sim_w)" by code_simp
  have off: "\<not> (\<exists>i\<in>set (bus_bytes cfg_w).
      int 5 = effective_addr cfg_w (mem_addr_o (vtop sim_w)) + int i \<and> bit (mem_be_o (vtop sim_w)) i)"
    by code_simp
  from byte_enable_frame [OF c r w l] off
  have "mem (the (cycle dut_w cfg_w sim_w)) ! 5 = mem sim_w ! 5"
    by (simp only: if_False)
  with c r w l show ?thesis by (simp only: simp_thms)
qed

section \<open>The response of a write request\<close>






section \<open>The error flag\<close>

text \<open>
  C3, as the code has it. The error flag of the pushed response compares the effective
  address, that is the address after the reduction modulo the memory size and the
  alignment, with the memory size. For every memory size that \<^verbatim>\<open>main\<close> accepts the effective
  address is below the memory size, so the flag is false for every request: an address that
  wraps to an in-range value is not flagged.
\<close>

theorem error_flag_on_reduced_address:
  assumes "0 < mem_sz cfg" and "mem_sz cfg < 2 ^ 31"
    and "pushed_response cfg s = Some (v, d, e)"
  shows "e = (mem_sz cfg \<le> effective_addr cfg (mem_addr_o (vtop s))) \<and> \<not> e"
proof -
  from assms(3) obtain s' where s': "read_memory_request cfg s = Some s'"
    and sl: "slot s' 0 = (v, d, e)"
    by (auto simp: pushed_response_def split: option.splits)
  from read_memory_request_SomeD [OF s'] sl
  have "e = (mem_sz cfg \<le> effective_addr cfg (mem_addr_o (vtop s)))"
    by (auto simp: slot_def)
  moreover from effective_addr_range [OF assms(1,2), of "mem_addr_o (vtop s)"]
  have "\<not> mem_sz cfg \<le> effective_addr cfg (mem_addr_o (vtop s))" by simp
  ultimately show ?thesis by simp
qed

text \<open>
  C3, as stated, fails: a request for address 16 on 16 bytes of memory is out of range before
  the reduction, and the response pushed for it carries a false error flag.
\<close>

theorem error_flag_counterexample:
  "mem_sz cfg_w \<le> uint (mem_addr_o (vtop sim_e)) \<and> pushed_response cfg_w sim_e = Some (True, 0, False)"
  by code_simp

theorem error_flag_on_reduced_address_witness:
  "0 < mem_sz cfg_w \<and> mem_sz cfg_w < 2 ^ 31 \<and>
   pushed_response cfg_w sim_e = Some (True, 0, False) \<and>
   \<not> mem_sz cfg_w \<le> effective_addr cfg_w (mem_addr_o (vtop sim_e))"
proof -
  have a: "0 < mem_sz cfg_w" and b: "mem_sz cfg_w < 2 ^ 31" by code_simp+
  have p: "pushed_response cfg_w sim_e = Some (True, 0, False)" by code_simp
  from error_flag_on_reduced_address [OF a b p]
  have "\<not> mem_sz cfg_w \<le> effective_addr cfg_w (mem_addr_o (vtop sim_e))" by simp
  with a b p show ?thesis by (simp only: simp_thms)
qed

section \<open>Latency zero\<close>

text \<open>
  C2. With \<^verbatim>\<open>mem_latency = 0\<close> the queues have no slot, and every cycle writes
  \<^verbatim>\<open>mem_rvalid_queue[0]\<close> all the same: the behaviour of the cycle is undefined, no response
  is passed through.
\<close>

theorem zero_latency_undefined:
  assumes "mem_latency cfg = 0" and "allocated cfg s"
  shows "cycle dut cfg s = None"
proof -
  from assms have "mem_rvalid_queue s = []" by (simp add: allocated_def)
  then have "read_memory_request cfg s = None"
    by (simp add: read_memory_request_def Let_def arr_set_def split: bind_splits)
  then show ?thesis by (simp add: cycle_def)
qed

theorem zero_latency_undefined_witness:
  "mem_latency cfg_z = 0 \<and> allocated cfg_z (fresh_sim cfg_z) \<and>
   cycle dut_w cfg_z (fresh_sim cfg_z) = None"
proof -
  have l: "mem_latency cfg_z = 0" by (simp add: cfg_z_def)
  from zero_latency_undefined [OF l allocated_fresh_sim]
  have "cycle dut_w cfg_z (fresh_sim cfg_z) = None" .
  with l allocated_fresh_sim show ?thesis by simp
qed

section \<open>Runs of several cycles\<close>

lemma cycles_add:
  "cycles dut cfg (m + n) s =
     (case cycles dut cfg m s of None \<Rightarrow> None | Some s' \<Rightarrow> cycles dut cfg n s')"
  by (induction m arbitrary: s) (auto split: option.splits)

lemma cycles_Suc_right:
  "cycles dut cfg (Suc n) s =
     (case cycles dut cfg n s of None \<Rightarrow> None | Some s' \<Rightarrow> cycle dut cfg s')"
  using cycles_add [of dut cfg n 1 s] by (auto split: option.splits)

lemma cycles_Suc_rightD:
  assumes "cycles dut cfg (Suc n) s = Some s'"
  shows "\<exists>s1. cycles dut cfg n s = Some s1 \<and> cycle dut cfg s1 = Some s'"
proof -
  from assms have "(case cycles dut cfg n s of None \<Rightarrow> None | Some s1 \<Rightarrow> cycle dut cfg s1) = Some s'"
    by (simp only: cycles_Suc_right)
  then show ?thesis by (cases "cycles dut cfg n s") simp_all
qed

lemma cycle_allocated:
  assumes "cycle dut cfg s = Some s'" and "allocated cfg s"
  shows "allocated cfg s'"
proof -
  from cycle_SomeD [OF assms] obtain s1 where s1: "read_memory_request cfg s = Some s1"
    and q: "mem s' = mem s1"
      "mem_rvalid_queue s' = shifted (nat (mem_latency cfg - 1)) (mem_rvalid_queue s1)"
      "mem_rdata_queue s' = shifted (nat (mem_latency cfg - 1)) (mem_rdata_queue s1)"
      "mem_err_queue s' = shifted (nat (mem_latency cfg - 1)) (mem_err_queue s1)"
    by blast
  from read_memory_request_SomeD [OF s1] obtain m where
    m: "write_request cfg (vtop s) (mem s) = Some m"
    and s1_eq: "s1 = s\<lparr>mem := m,
                  mem_rvalid_queue := (mem_rvalid_queue s)[0 := mem_req_o (vtop s)],
                  mem_rdata_queue := (mem_rdata_queue s)
                     [0 := mem_word m (effective_addr cfg (mem_addr_o (vtop s))) (bus_bytes cfg)],
                  mem_err_queue := (mem_err_queue s)
                     [0 := mem_sz cfg \<le> effective_addr cfg (mem_addr_o (vtop s))]\<rparr>"
    by blast
  from m have "length m = length (mem s)"
    by (auto simp: write_request_def write_bytes_length split: if_splits)
  with q s1_eq assms(2) show ?thesis by (simp add: allocated_def)
qed

lemma cycles_allocated:
  "cycles dut cfg n s = Some s' \<Longrightarrow> allocated cfg s \<Longrightarrow> allocated cfg s'"
  by (induction n arbitrary: s) (auto split: option.splits dest: cycle_allocated)

lemma cycle_slots:
  assumes c: "cycle dut cfg s = Some s'" and a: "allocated cfg s"
  shows "\<exists>p. pushed_response cfg s = Some p \<and> slot s' 0 = p \<and>
           (\<forall>i. 1 \<le> i \<and> int i < mem_latency cfg \<longrightarrow> slot s' i = (if i = 1 then p else slot s (i - 1))) \<and>
           delivered s' = (if mem_latency cfg = 1 then p else slot s (nat (mem_latency cfg - 1)))"
proof -
  from cycle_SomeD [OF c a] obtain s1 where s1: "read_memory_request cfg s = Some s1"
    and L: "1 \<le> mem_latency cfg"
    and q: "mem_rvalid_queue s' = shifted (nat (mem_latency cfg - 1)) (mem_rvalid_queue s1)"
      "mem_rdata_queue s' = shifted (nat (mem_latency cfg - 1)) (mem_rdata_queue s1)"
      "mem_err_queue s' = shifted (nat (mem_latency cfg - 1)) (mem_err_queue s1)"
    and d: "delivered s' = slot s1 (nat (mem_latency cfg - 1))"
    by blast
  from read_memory_request_SomeD [OF s1] obtain m where
    s1_eq: "s1 = s\<lparr>mem := m,
                  mem_rvalid_queue := (mem_rvalid_queue s)[0 := mem_req_o (vtop s)],
                  mem_rdata_queue := (mem_rdata_queue s)
                     [0 := mem_word m (effective_addr cfg (mem_addr_o (vtop s))) (bus_bytes cfg)],
                  mem_err_queue := (mem_err_queue s)
                     [0 := mem_sz cfg \<le> effective_addr cfg (mem_addr_o (vtop s))]\<rparr>"
    by blast
  from a s1_eq have len: "length (mem_rvalid_queue s1) = nat (mem_latency cfg)"
    "length (mem_rdata_queue s1) = nat (mem_latency cfg)"
    "length (mem_err_queue s1) = nat (mem_latency cfg)"
    by (simp_all add: allocated_def)
  have p: "pushed_response cfg s = Some (slot s1 0)" using s1 by (simp add: pushed_response_def)
  have sl: "slot s' i = (if 1 \<le> i then slot s1 (i - 1) else slot s1 i)" if "int i < mem_latency cfg" for i
    using that len q by (auto simp: slot_def nth_shifted)
  have old: "slot s1 i = slot s i" if "0 < i" for i
    using that s1_eq by (simp add: slot_def)
  have "slot s' 0 = slot s1 0" using sl [of 0] L by simp
  moreover have "slot s' i = (if i = 1 then slot s1 0 else slot s (i - 1))"
    if "1 \<le> i \<and> int i < mem_latency cfg" for i
    using that sl [of i] old [of "i - 1"] by auto
  moreover have "delivered s' = (if mem_latency cfg = 1 then slot s1 0 else slot s (nat (mem_latency cfg - 1)))"
    using d old [of "nat (mem_latency cfg - 1)"] L by auto
  ultimately show ?thesis using p by blast
qed

lemma response_travels:
  assumes a: "allocated cfg s" and p: "pushed_response cfg s = Some p"
  shows "1 \<le> j \<Longrightarrow> int j < mem_latency cfg \<Longrightarrow> cycles dut cfg j s = Some s' \<Longrightarrow> slot s' j = p"
proof (induction j arbitrary: s')
  case 0
  then show ?case by simp
next
  case (Suc j)
  from cycles_Suc_rightD [OF Suc.prems(3)] obtain s1 where s1: "cycles dut cfg j s = Some s1"
    and c: "cycle dut cfg s1 = Some s'"
    by blast
  from cycles_allocated [OF s1 a] have a1: "allocated cfg s1" .
  from cycle_slots [OF c a1] obtain p1 where p1: "pushed_response cfg s1 = Some p1"
    and sl: "\<forall>i. 1 \<le> i \<and> int i < mem_latency cfg \<longrightarrow> slot s' i = (if i = 1 then p1 else slot s1 (i - 1))"
    by blast
  show ?case
  proof (cases "j = 0")
    case True
    with s1 have "s1 = s" by simp
    with p p1 have "p1 = p" by simp
    with sl Suc.prems True show ?thesis by simp
  next
    case False
    then have "slot s1 j = p" using Suc.IH [OF _ _ s1] Suc.prems by simp
    with sl Suc.prems False show ?thesis by simp
  qed
qed

lemma response_delivered:
  assumes a: "allocated cfg s" and L: "1 \<le> mem_latency cfg"
    and p: "pushed_response cfg s = Some p"
    and c: "cycles dut cfg (nat (mem_latency cfg)) s = Some s'"
  shows "delivered s' = p"
proof -
  from L obtain n where n: "nat (mem_latency cfg) = Suc n" by (cases "nat (mem_latency cfg)") auto
  with c have "cycles dut cfg (Suc n) s = Some s'" by simp
  from cycles_Suc_rightD [OF this] obtain s1 where s1: "cycles dut cfg n s = Some s1"
    and c1: "cycle dut cfg s1 = Some s'"
    by blast
  from cycles_allocated [OF s1 a] have a1: "allocated cfg s1" .
  from cycle_slots [OF c1 a1] obtain p1 where p1: "pushed_response cfg s1 = Some p1"
    and d: "delivered s' = (if mem_latency cfg = 1 then p1 else slot s1 (nat (mem_latency cfg - 1)))"
    by blast
  show ?thesis
  proof (cases "n = 0")
    case True
    with s1 n p p1 d show ?thesis by auto
  next
    case False
    with n have "1 \<le> n" "int n < mem_latency cfg" "nat (mem_latency cfg - 1) = n" "mem_latency cfg \<noteq> 1" by auto
    with response_travels [OF a p _ _ s1] d show ?thesis by simp
  qed
qed

lemma cycle_fcsv:
  assumes "cycle dut cfg s = Some s'"
  shows "length (fcsv s') = Suc (length (fcsv s))"
proof -
  from assms obtain s1 s3 where s1: "read_memory_request cfg s = Some s1"
    and s3: "fulfill_memory_request dut cfg (s1\<lparr>vtop := eval dut ((vtop s1)\<lparr>clk_i := True\<rparr>)\<rparr>) = Some s3"
    and s': "s' = log_cycle (s3\<lparr>vtop := eval dut ((vtop s3)\<lparr>clk_i := False\<rparr>)\<rparr>)"
    unfolding cycle_def Let_def by (auto split: bind_splits)
  from s3 have "fcsv s3 = fcsv s1"
    unfolding fulfill_memory_request_def Let_def
    by (auto split: bind_splits dest: advance_frame)
  moreover from read_memory_request_SomeD [OF s1] have "fcsv s1 = fcsv s" by auto
  ultimately show ?thesis using s' by (simp add: log_cycle_def)
qed

lemma cycles_fcsv:
  "cycles dut cfg n s = Some s' \<Longrightarrow> length (fcsv s') = length (fcsv s) + n"
  by (induction n arbitrary: s) (auto split: option.splits dest: cycle_fcsv)

section \<open>The latency of a response\<close>

text \<open>
  C1, as the code has it. For every latency \<open>L \<ge> 1\<close>, every device and every cycle \<open>T\<close>
  of a run that is defined up to the end of cycle \<open>T + L - 1\<close>: the response pushed into
  the queues in cycle \<open>T\<close> is on the response ports of the device at the end of cycle
  \<open>T + L - 1\<close>. For \<open>L = 1\<close> that is the cycle in which it was pushed.
\<close>

theorem response_delivered_after_latency:
  assumes "allocated cfg s0" and "1 \<le> mem_latency cfg"
    and "cycles dut cfg (T + nat (mem_latency cfg)) s0 = Some s'"
  shows "\<exists>p. pushed_in dut cfg s0 T = Some p \<and>
              delivered_in dut cfg s0 (T + nat (mem_latency cfg) - 1) = Some p"
proof -
  from assms(3) obtain sT where sT: "cycles dut cfg T s0 = Some sT"
    and c: "cycles dut cfg (nat (mem_latency cfg)) sT = Some s'"
    by (auto simp: cycles_add split: option.splits)
  from cycles_allocated [OF sT assms(1)] have aT: "allocated cfg sT" .
  from assms(2) obtain n where n: "nat (mem_latency cfg) = Suc n" by (cases "nat (mem_latency cfg)") auto
  with c obtain s1 where "cycle dut cfg sT = Some s1" by (auto split: option.splits)
  from cycle_slots [OF this aT] obtain p where p: "pushed_response cfg sT = Some p" by blast
  from response_delivered [OF aT assms(2) p c] have "delivered s' = p" .
  moreover have "Suc (T + nat (mem_latency cfg) - 1) = T + nat (mem_latency cfg)" using n by simp
  ultimately have "delivered_in dut cfg s0 (T + nat (mem_latency cfg) - 1) = Some p"
    using assms(3) by (simp add: delivered_in_def)
  moreover have "pushed_in dut cfg s0 T = Some p" using sT p by (simp add: pushed_in_def)
  ultimately show ?thesis by blast
qed

text \<open>
  With latency 2, the response pushed in cycle 0 is on the ports at the end of cycle 1.
\<close>

theorem response_delivered_after_latency_witness:
  "allocated cfg_w sim_w \<and> 1 \<le> mem_latency cfg_w \<and>
   cycles dut_w cfg_w (0 + nat (mem_latency cfg_w)) sim_w =
     Some (the (cycles dut_w cfg_w (0 + nat (mem_latency cfg_w)) sim_w)) \<and>
   pushed_in dut_w cfg_w sim_w 0 = Some (True, 0x00220044, False) \<and>
   delivered_in dut_w cfg_w sim_w 1 = Some (True, 0x00220044, False)"
proof -
  have a: "allocated cfg_w sim_w" by code_simp
  have l: "1 \<le> mem_latency cfg_w" by code_simp
  have c: "cycles dut_w cfg_w (0 + nat (mem_latency cfg_w)) sim_w =
     Some (the (cycles dut_w cfg_w (0 + nat (mem_latency cfg_w)) sim_w))"
    by code_simp
  have p: "pushed_in dut_w cfg_w sim_w 0 = Some (True, 0x00220044, False)" by code_simp
  have i: "0 + nat (mem_latency cfg_w) - 1 = 1" by code_simp
  from response_delivered_after_latency [OF a l c]
  have "delivered_in dut_w cfg_w sim_w 1 = Some (True, 0x00220044, False)"
    by (simp only: p i) simp
  with a l c p show ?thesis by (simp only: simp_thms)
qed

text \<open>
  C1, as stated, fails: with latency 2 the ports carry at the end of cycle \<open>0 + 2\<close> the
  response pushed in cycle 1, not the one pushed in cycle 0.
\<close>

theorem response_delivered_at_T_plus_L_counterexample:
  "mem_latency cfg_w = 2 \<and>
   pushed_in dut_w cfg_w sim_w 0 = Some (True, 0x00220044, False) \<and>
   delivered_in dut_w cfg_w sim_w (0 + 2) = Some (False, 0, False)"
  by code_simp

section \<open>Termination of a run\<close>

lemma run_loop_draining:
  "0 < end_cnt \<Longrightarrow> end_cnt \<le> extra_cycles cfg \<Longrightarrow>
   cycles dut cfg n s = Some s' \<Longrightarrow> n = nat (extra_cycles cfg - end_cnt) \<Longrightarrow>
   run_loop dut cfg end_cnt s = Some (Some s')"
proof (induction n arbitrary: end_cnt s)
  case 0
  then have "\<not> end_cnt < extra_cycles cfg" "s' = s" by auto
  then show ?case by (subst run_loop.simps) simp
next
  case (Suc n)
  from Suc.prems(3) obtain s1 where c: "cycle dut cfg s = Some s1"
    and r: "cycles dut cfg n s1 = Some s'"
    by (auto split: option.splits)
  from Suc.prems have lt: "end_cnt < extra_cycles cfg" by linarith
  from Suc.prems(1) have nx: "next_end_cnt end_cnt s1 = end_cnt + 1" by (simp add: next_end_cnt_def)
  have "run_loop dut cfg (end_cnt + 1) s1 = Some (Some s')"
    using Suc.prems lt by (intro Suc.IH [OF _ _ r]) auto
  with c lt nx show ?case by (subst run_loop.simps) simp
qed

lemma run_loop_running:
  "0 < extra_cycles cfg \<Longrightarrow> first_zero_request dut cfg s C \<Longrightarrow>
   cycles dut cfg (C + nat (extra_cycles cfg)) s = Some s' \<Longrightarrow>
   run_loop dut cfg 0 s = Some (Some s')"
proof (induction C arbitrary: s)
  case 0
  from "0.prems"(2) obtain s1 where c: "cycle dut cfg s = Some s1" and z: "zero_request s1"
    by (auto simp: first_zero_request_def split: option.splits)
  from "0.prems"(1) obtain n where n: "nat (extra_cycles cfg) = Suc n"
    by (cases "nat (extra_cycles cfg)") auto
  with "0.prems"(3) c have r: "cycles dut cfg n s1 = Some s'" by simp
  from z have nx: "next_end_cnt 0 s1 = 1" by (simp add: next_end_cnt_def zero_request_def)
  have "run_loop dut cfg 1 s1 = Some (Some s')"
    using "0.prems"(1) n by (intro run_loop_draining [OF _ _ r]) auto
  with c nx "0.prems"(1) show ?case by (subst run_loop.simps) simp
next
  case (Suc C)
  from Suc.prems(3) obtain s1 where c: "cycle dut cfg s = Some s1"
    and r: "cycles dut cfg (C + nat (extra_cycles cfg)) s1 = Some s'"
    by (auto split: option.splits)
  have "0 \<in> set [0 ..< Suc C]" by (simp del: upt_Suc)
  with Suc.prems(2) have "case cycles dut cfg (Suc 0) s of None \<Rightarrow> False | Some s \<Rightarrow> \<not> zero_request s"
    unfolding first_zero_request_def by blast
  with c have nz: "\<not> zero_request s1" by simp
  have f: "first_zero_request dut cfg s1 C"
    unfolding first_zero_request_def
  proof (intro conjI ballI)
    fix k assume "k \<in> set [0 ..< C]"
    then have "Suc k \<in> set [0 ..< Suc C]" by (simp del: upt_Suc)
    with Suc.prems(2) have "case cycles dut cfg (Suc (Suc k)) s of None \<Rightarrow> False | Some s \<Rightarrow> \<not> zero_request s"
      unfolding first_zero_request_def by blast
    with c show "case cycles dut cfg (Suc k) s1 of None \<Rightarrow> False | Some s \<Rightarrow> \<not> zero_request s"
      by simp
  next
    from Suc.prems(2) c show "case cycles dut cfg (Suc C) s1 of None \<Rightarrow> False | Some s \<Rightarrow> zero_request s"
      by (simp add: first_zero_request_def)
  qed
  from nz have nx: "next_end_cnt 0 s1 = 0" by (simp add: next_end_cnt_def zero_request_def)
  from Suc.IH [OF Suc.prems(1) f r] c nx Suc.prems(1) show ?case
    by (subst run_loop.simps) simp
qed

text \<open>
  C4, as the code has it. For every \<^verbatim>\<open>extra_cycles \<ge> 1\<close>: if the first request to
  address 0 is on the ports at the end of cycle \<open>C\<close>, and the run is defined that far, the
  loop leaves after exactly \<open>C + extra_cycles\<close> cycles, whatever the device does after
  cycle \<open>C\<close>: cycle \<open>C\<close> itself is the first of the extra cycles, and the trace file has
  one row for each of the \<open>C + extra_cycles\<close> cycles.
\<close>

theorem simulation_halts_after_extra_cycles:
  assumes "1 \<le> extra_cycles cfg"
    and "reset_sequence dut cfg s = Some s0"
    and "first_zero_request dut cfg s0 C"
    and "cycles dut cfg (C + nat (extra_cycles cfg)) s0 = Some s'"
  shows "simulate dut cfg s = Some (Some s') \<and>
         length (fcsv s') = length (fcsv s0) + (C + nat (extra_cycles cfg))"
proof -
  from assms(1) have "0 < extra_cycles cfg" by simp
  from run_loop_running [OF this assms(3,4)] assms(2)
  have "simulate dut cfg s = Some (Some s')" by (simp add: simulate_def)
  with cycles_fcsv [OF assms(4)] show ?thesis by simp
qed

text \<open>
  The third request of the script goes to address 0; it is on the ports at the end of
  cycle 1, and with three extra cycles the run takes four cycles after the ten of the reset.
\<close>

theorem simulation_halts_after_extra_cycles_witness:
  "1 \<le> extra_cycles cfg_w \<and>
   reset_sequence dut_t cfg_w (fresh_sim cfg_w) = Some sim_t \<and>
   first_zero_request dut_t cfg_w sim_t 1 \<and>
   cycles dut_t cfg_w (1 + nat (extra_cycles cfg_w)) sim_t =
     Some (the (cycles dut_t cfg_w (1 + nat (extra_cycles cfg_w)) sim_t)) \<and>
   simulate dut_t cfg_w (fresh_sim cfg_w) =
     Some (Some (the (cycles dut_t cfg_w (1 + nat (extra_cycles cfg_w)) sim_t))) \<and>
   length (fcsv (the (cycles dut_t cfg_w (1 + nat (extra_cycles cfg_w)) sim_t))) = 10 + (1 + 3)"
proof -
  have e: "1 \<le> extra_cycles cfg_w" by code_simp
  have r: "reset_sequence dut_t cfg_w (fresh_sim cfg_w) = Some sim_t" by code_simp
  have f: "first_zero_request dut_t cfg_w sim_t 1" by code_simp
  have c: "cycles dut_t cfg_w (1 + nat (extra_cycles cfg_w)) sim_t =
     Some (the (cycles dut_t cfg_w (1 + nat (extra_cycles cfg_w)) sim_t))" by code_simp
  have n: "length (fcsv sim_t) + (1 + nat (extra_cycles cfg_w)) = 10 + (1 + 3)" by code_simp
  from simulation_halts_after_extra_cycles [OF e r f c]
  have "simulate dut_t cfg_w (fresh_sim cfg_w) =
     Some (Some (the (cycles dut_t cfg_w (1 + nat (extra_cycles cfg_w)) sim_t))) \<and>
   length (fcsv (the (cycles dut_t cfg_w (1 + nat (extra_cycles cfg_w)) sim_t))) = 10 + (1 + 3)"
    by (simp only: n)
  with e r f c show ?thesis by (simp only: simp_thms)
qed

text \<open>
  C4, as stated, fails for \<^verbatim>\<open>extra_cycles = 0\<close>: the loop body is never entered, the run
  ends in the state the reset left, with the ten rows of the reset in the trace file, and
  not after the cycle \<open>C = 1\<close> whose end shows the request to address 0.
\<close>

theorem halt_at_zero_extra_cycles_counterexample:
  "extra_cycles cfg_0 = 0 \<and>
   reset_sequence dut_t cfg_0 (fresh_sim cfg_0) = Some sim_t \<and>
   first_zero_request dut_t cfg_0 sim_t 1 \<and>
   simulate dut_t cfg_0 (fresh_sim cfg_0) = Some (Some sim_t) \<and>
   length (fcsv sim_t) = 10 \<and>
   map_option (length \<circ> fcsv) (cycles dut_t cfg_0 (1 + 0) sim_t) = Some 11"
  by code_simp

section \<open>Output files that do not open\<close>

lemma write_words_null: "write_words None m a e = None"
  by (subst write_words.simps) (simp split: option.splits)

lemma run_program_ref_unwritable:
  assumes "prog_file (snd p) = Some f" and "\<not> ref_file (snd p)"
  shows "run_program dut cfg p s = Some None"
proof (cases "load_program cfg f (mem s)")
  case None
  with assms(1) show ?thesis by (simp add: run_program_def)
next
  case (Some ld)
  with assms show ?thesis by (simp add: run_program_def fopen_w_def write_words_null)
qed

lemma run_program_dump_unwritable:
  assumes "prog_file (snd p) = Some f" and "\<not> dump_file (snd p)"
  shows "run_program dut cfg p s = None \<or> run_program dut cfg p s = Some None"
proof (cases "load_program cfg f (mem s)")
  case None
  with assms(1) show ?thesis by (simp add: run_program_def)
next
  case (Some ld)
  show ?thesis
  proof (cases "write_words (fopen_w (ref_file (snd p))) (ld_mem ld)
                       (ref_start (fst p)) (ref_end (fst p))")
    case None
    with assms(1) Some show ?thesis by (simp add: run_program_def)
  next
    case r: (Some ref)
    show ?thesis
    proof (cases "simulate dut cfg (s\<lparr>mem := ld_mem ld\<rparr>)")
      case None
      with assms(1) Some r show ?thesis by (simp add: run_program_def)
    next
      case s1: (Some x)
      show ?thesis
      proof (cases x)
        case None
        with assms(1) Some r s1 show ?thesis by (simp add: run_program_def)
      next
        case (Some s')
        with assms \<open>load_program cfg f (mem s) = Some ld\<close> r s1 show ?thesis
          by (simp add: run_program_def fopen_w_def write_words_null)
      qed
    qed
  qed
qed

text \<open>
  C7. When the program file of a line opens and its reference file or its dump file does not,
  the write loop and \<^verbatim>\<open>fclose\<close> go through the null handle all the same: the iteration for
  that line does not complete, it reaches undefined behaviour or, for the dump file, the
  simulation before it never ends; the lines after it are not processed.
\<close>

theorem unwritable_output_file_undefined:
  assumes "prog_file (snd p) = Some f" and "\<not> ref_file (snd p) \<or> \<not> dump_file (snd p)"
  shows "run_batch dut cfg (p # ps) s = None \<or> run_batch dut cfg (p # ps) s = Some None"
proof -
  from assms have "run_program dut cfg p s = None \<or> run_program dut cfg p s = Some None"
    using run_program_ref_unwritable [of p f dut cfg s]
      run_program_dump_unwritable [of p f dut cfg s] by blast
  then show ?thesis by auto
qed

text \<open>A batch of two lines whose first reference file does not open.\<close>

theorem unwritable_output_file_undefined_witness:
  "prog_file (snd prog_u) = Some ''11223344 55667788'' \<and> \<not> ref_file (snd prog_u) \<and>
   run_batch dut_t cfg_w [prog_u, prog_ok] (fresh_sim cfg_w) = Some None"
proof -
  have a: "prog_file (snd prog_u) = Some ''11223344 55667788''" by code_simp
  have n: "\<not> ref_file (snd prog_u)" by code_simp
  then have b: "\<not> ref_file (snd prog_u) \<or> \<not> dump_file (snd prog_u)" by (rule disjI1)
  have c: "run_batch dut_t cfg_w [prog_u, prog_ok] (fresh_sim cfg_w) \<noteq> None" by code_simp
  from unwritable_output_file_undefined [OF a b, of dut_t cfg_w "[prog_ok]" "fresh_sim cfg_w"] c
  have "run_batch dut_t cfg_w [prog_u, prog_ok] (fresh_sim cfg_w) = Some None" by blast
  with a n show ?thesis by (simp only: simp_thms)
qed

section \<open>Addresses of the loader and of the extraction\<close>

text \<open>
  C6. On 16 bytes of memory, an image file that places a word at word address 4 makes the
  loader write \<^verbatim>\<open>mem[16]\<close>, and a range from 16 to 20 makes the extraction read \<^verbatim>\<open>mem[16]\<close>:
  neither address is reduced modulo the memory size, both accesses are outside the buffer.
\<close>

theorem load_and_dump_out_of_range:
  "load_program cfg_w ''@4 12345678'' (replicate 16 0) = None \<and>
   write_words (fopen_w True) (replicate 16 0) 16 20 = None"
  by code_simp

section \<open>The dump of a loaded image\<close>

subsection \<open>Hexadecimal lines\<close>

lemma xdigit_val_hex_digit_all: "\<forall>n\<in>set [0 ..< 16]. xdigit_val (hex_digit n) = int n"
  by code_simp

lemma xdigit_val_hex_digit: "n < 16 \<Longrightarrow> xdigit_val (hex_digit n) = int n"
  using xdigit_val_hex_digit_all by simp

lemma nibble_digit: "word_of_int (xdigit_val (hex_digit (unat (x AND 15)))) = x AND 15" for x :: "32 word"
proof -
  have "x AND 15 \<le> 15" by (rule word_and_le1)
  then have "unat (x AND 15) \<le> 15" by (simp add: word_le_nat_alt)
  then have "xdigit_val (hex_digit (unat (x AND 15))) = int (unat (x AND 15))"
    by (intro xdigit_val_hex_digit) simp
  then show ?thesis by simp
qed

lemma nibble_split: "x = 16 * drop_bit 4 x + (x AND 15)" for x :: "32 word"
proof -
  have "push_bit 4 (drop_bit 4 x) + take_bit 4 x = x" by (rule bits_ident)
  moreover have "take_bit 4 x = x AND 15" by (simp add: take_bit_eq_mask mask_eq_exp_minus_1)
  moreover have "push_bit 4 (drop_bit 4 x) = 16 * drop_bit 4 x" by (simp add: push_bit_eq_mult)
  ultimately show ?thesis by simp
qed

lemma parse_hex_hex08: "parse_hex (hex08 w) = w"
proof -
  define d where "d i = drop_bit (4 * i) w" for i
  have step: "16 * d j + (d i AND 15) = d i" if "j = Suc i" for i j
  proof -
    have "drop_bit 4 (d i) = d j" using that by (simp add: d_def drop_bit_drop_bit add.commute)
    with nibble_split [of "d i"] show ?thesis by simp
  qed
  have d8: "d 8 = 0" by (simp add: d_def drop_bit_eq_zero_iff_not_bit_last) 
  have "parse_hex (hex08 w) =
    16 * (16 * (16 * (16 * (16 * (16 * (16 * (d 7 AND 15) + (d 6 AND 15)) + (d 5 AND 15)) + (d 4 AND 15))
      + (d 3 AND 15)) + (d 2 AND 15)) + (d 1 AND 15)) + (d 0 AND 15)"
    by (simp add: parse_hex_def hex08_def nibble_digit d_def)
  also have "d 7 AND 15 = d 7" using step [of 8 7] d8 by simp
  also have "16 * d 7 + (d 6 AND 15) = d 6" by (rule step) simp
  also have "16 * d 6 + (d 5 AND 15) = d 5" by (rule step) simp
  also have "16 * d 5 + (d 4 AND 15) = d 4" by (rule step) simp
  also have "16 * d 4 + (d 3 AND 15) = d 3" by (rule step) simp
  also have "16 * d 3 + (d 2 AND 15) = d 2" by (rule step) simp
  also have "16 * d 2 + (d 1 AND 15) = d 1" by (rule step) simp
  also have "16 * d 1 + (d 0 AND 15) = d 0" by (rule step) simp
  also have "d 0 = w" by (simp add: d_def)
  finally show ?thesis .
qed

subsection \<open>The write loop\<close>

lemma word_addrs_step: "a < e \<Longrightarrow> word_addrs a e = a # word_addrs (a + 4) e"
proof -
  assume lt: "a < e"
  have n: "nat ((e - a + 3) div 4) = Suc (nat ((e - (a + 4) + 3) div 4))"
    using lt by (simp add: nat_eq_iff) presburger
  have "word_addrs a e = map (\<lambda>k. a + 4 * int k) (0 # map Suc [0 ..< nat ((e - (a + 4) + 3) div 4)])"
    unfolding word_addrs_def n by (simp only: upt_conv_Cons zero_less_Suc map_Suc_upt [symmetric]) 
  also have "\<dots> = a # word_addrs (a + 4) e"
    by (simp add: word_addrs_def comp_def algebra_simps)
  finally show ?thesis .
qed

lemma word_addrs_empty: "\<not> a < e \<Longrightarrow> word_addrs a e = []"
proof -
  assume "\<not> a < e"
  then have "(e - a + 3) div 4 \<le> 0" by presburger
  then show ?thesis by (simp add: word_addrs_def)
qed

lemma word_addrs_aligned: "a mod 4 = 0 \<Longrightarrow> x \<in> set (word_addrs a e) \<Longrightarrow> x mod 4 = 0"
  by (auto simp: word_addrs_def)

lemma write_words_Some:
  "write_words ftmp m a e = Some ls \<Longrightarrow>
   \<exists>ls0. ftmp = Some ls0 \<and>
     map Some ls = map Some ls0 @ map (\<lambda>x. map_option hex08 (read_word m x)) (word_addrs a e)"
proof (induction ftmp m a e rule: write_words.induct)
  case (1 ftmp m a e)
  show ?case
  proof (cases "a < e")
    case False
    with "1.prems" have "ftmp = Some ls" by (subst (asm) write_words.simps) simp
    with False show ?thesis by (simp add: word_addrs_empty)
  next
    case True
    with "1.prems" obtain d ls0 where d: "read_word m a = Some d" and f: "ftmp = Some ls0"
      and w: "write_words (Some (ls0 @ [hex08 d])) m (a + 4) e = Some ls"
      by (subst (asm) write_words.simps) (auto split: option.splits)
    from "1.IH" [OF True d f w] have
      "map Some ls = map Some (ls0 @ [hex08 d]) @ map (\<lambda>x. map_option hex08 (read_word m x)) (word_addrs (a + 4) e)"
      by simp
    with True d f show ?thesis by (simp add: word_addrs_step)
  qed
qed

lemma dump_lines:
  assumes "write_words (fopen_w True) m a e = Some ls"
  shows "map (Some \<circ> parse_hex) ls = map (read_word m) (word_addrs a e)"
proof -
  from write_words_Some [OF assms] have
    eq: "map Some ls = map (\<lambda>x. map_option hex08 (read_word m x)) (word_addrs a e)"
    by (simp add: fopen_w_def)
  have "map (Some \<circ> parse_hex) ls = map (map_option parse_hex) (map Some ls)" by simp
  also have "\<dots> = map (\<lambda>x. map_option parse_hex (map_option hex08 (read_word m x))) (word_addrs a e)"
    unfolding eq by simp
  also have "\<dots> = map (read_word m) (word_addrs a e)"
    by (simp add: option.map_comp comp_def parse_hex_hex08 option.map_ident)
  finally show ?thesis .
qed

subsection \<open>Words in the buffer\<close>

lemma bytes_word: 
  "ucast (ucast d :: 8 word) OR push_bit 8 (ucast (ucast (drop_bit 8 d) :: 8 word)) OR
   push_bit 16 (ucast (ucast (drop_bit 16 d) :: 8 word)) OR
   push_bit 24 (ucast (ucast (drop_bit 24 d) :: 8 word)) = d" for d :: "32 word"
proof (rule bit_word_eqI)
  fix n assume "n < LENGTH(32)"
  then consider "n < 8" | "8 \<le> n" "n < 16" | "16 \<le> n" "n < 24" | "24 \<le> n" "n < 32"
    by fastforce
  then show "bit (ucast (ucast d :: 8 word) OR push_bit 8 (ucast (ucast (drop_bit 8 d) :: 8 word)) OR
      push_bit 16 (ucast (ucast (drop_bit 16 d) :: 8 word)) OR
      push_bit 24 (ucast (ucast (drop_bit 24 d) :: 8 word)) :: 32 word) n = bit d n"
    by cases (auto simp: bit_or_iff bit_push_bit_iff bit_ucast_iff bit_drop_bit_eq)
qed

lemma store_bytes_word:
  assumes "store_bytes a d [0 ..< 4] m = Some m'"
  shows "0 \<le> a \<and> a + 3 < int (length m) \<and>
         m' = m[nat a := ucast d, nat a + 1 := ucast (drop_bit 8 d),
                nat a + 2 := ucast (drop_bit 16 d), nat a + 3 := ucast (drop_bit 24 d)]"
proof -
  have idx: "[0 ..< 4] = [0, 1, 2, 3::nat]" by (simp add: upt_rec)
  from store_bytes_range [OF assms, of 0] store_bytes_range [OF assms, of 3]
  have r: "0 \<le> a" "a + 3 < int (length m)" by simp_all
  then have n: "nat (a + 1) = nat a + 1" "nat (a + 2) = nat a + 2" "nat (a + 3) = nat a + 3"
    by simp_all
  from assms r show ?thesis
    unfolding idx by (simp add: arr_set_def n split: if_splits)
qed

lemma read_word_eq:
  "0 \<le> a \<Longrightarrow> a + 3 < int (length m) \<Longrightarrow>
   read_word m a = Some (ucast (m ! nat a) OR push_bit 8 (ucast (m ! (nat a + 1))) OR
      push_bit 16 (ucast (m ! (nat a + 2))) OR push_bit 24 (ucast (m ! (nat a + 3))))"
proof -
  assume r: "0 \<le> a" "a + 3 < int (length m)"
  then have n: "nat (a + 1) = nat a + 1" "nat (a + 2) = nat a + 2" "nat (a + 3) = nat a + 3"
    by simp_all
  from r show ?thesis by (simp add: read_word_def arr_get_def n)
qed

lemma read_word_SomeD: "read_word m x = Some d \<Longrightarrow> 0 \<le> x \<and> x + 3 < int (length m)"
  by (auto simp: read_word_def arr_get_Some split: bind_splits)

lemma read_word_stored:
  assumes "store_bytes a d [0 ..< 4] m = Some m'"
  shows "read_word m' a = Some d"
proof -
  from store_bytes_word [OF assms] have r: "0 \<le> a" "a + 3 < int (length m)"
    and m': "m' = m[nat a := ucast d, nat a + 1 := ucast (drop_bit 8 d),
                nat a + 2 := ucast (drop_bit 16 d), nat a + 3 := ucast (drop_bit 24 d)]"
    by simp_all
  from r have l: "nat a + 3 < length m" by linarith
  have "length m' = length m" using m' by simp
  with r have "read_word m' a = Some (ucast (m' ! nat a) OR push_bit 8 (ucast (m' ! (nat a + 1))) OR
      push_bit 16 (ucast (m' ! (nat a + 2))) OR push_bit 24 (ucast (m' ! (nat a + 3))))"
    by (intro read_word_eq) simp_all
  also have "\<dots> = Some d"
    using l unfolding m' by (simp add: bytes_word)
  finally show ?thesis .
qed

lemma read_word_other:
  assumes "store_bytes a d [0 ..< 4] m = Some m'"
    and "0 \<le> b" and "b + 3 < int (length m)" and "b + 3 < a \<or> a + 3 < b"
  shows "read_word m' b = read_word m b"
proof -
  from store_bytes_word [OF assms(1)] have r: "0 \<le> a" "a + 3 < int (length m)"
    and m': "m' = m[nat a := ucast d, nat a + 1 := ucast (drop_bit 8 d),
                nat a + 2 := ucast (drop_bit 16 d), nat a + 3 := ucast (drop_bit 24 d)]"
    by simp_all
  have len: "length m' = length m" using m' by simp
  from assms(2,4) r have ne: "nat b + i \<noteq> nat a + j" if "i \<le> 3" "j \<le> 3" for i j
    using that by linarith
  have same: "m' ! (nat b + i) = m ! (nat b + i)" if "i \<le> 3" for i
    unfolding m' using ne [OF that, of 0] ne [OF that, of 1] ne [OF that, of 2] ne [OF that, of 3]
    by simp
  have "read_word m' b = Some (ucast (m' ! nat b) OR push_bit 8 (ucast (m' ! (nat b + 1))) OR
      push_bit 16 (ucast (m' ! (nat b + 2))) OR push_bit 24 (ucast (m' ! (nat b + 3))))"
    using assms(2,3) len by (intro read_word_eq) simp_all
  also have "\<dots> = Some (ucast (m ! nat b) OR push_bit 8 (ucast (m ! (nat b + 1))) OR
      push_bit 16 (ucast (m ! (nat b + 2))) OR push_bit 24 (ucast (m ! (nat b + 3))))"
    using same [of 0] same [of 1] same [of 2] same [of 3] by simp
  also have "\<dots> = read_word m b" using assms(2,3) by (simp add: read_word_eq)
  finally show ?thesis .
qed

lemma read_word_zero:
  "0 \<le> a \<Longrightarrow> a + 3 < int n \<Longrightarrow> read_word (replicate n 0) a = Some 0"
  by (simp add: read_word_eq)

lemma last_stored_append:
  "last_stored (log @ [(a, d)]) b = (if b = a then d else last_stored log b)"
proof -
  have ne: "(case l of [] \<Rightarrow> 0 | p # ps \<Rightarrow> snd (last (p # ps))) = snd (last l)"
    if "l \<noteq> []" for l :: "(int \<times> 32 word) list"
    using that by (cases l) simp_all
  show ?thesis
  proof (cases "b = a")
    case True
    then have "last_stored (log @ [(a, d)]) b = snd (last (filter (\<lambda>p. fst p = a) log @ [(a, d)]))"
      unfolding last_stored_def by (subst ne [symmetric]) simp_all
    with True show ?thesis by simp
  next
    case False
    then show ?thesis by (simp add: last_stored_def)
  qed
qed

subsection \<open>The loader\<close>

lemma loaded_store:
  assumes l: "loaded ld"
    and s: "store_bytes (ld_addr ld) d [0 ..< 4] (ld_mem ld) = Some m'"
  shows "loaded (ld\<lparr>ld_addr := ld_addr ld + 4, ld_mem := m',
                    ld_stored := ld_stored ld @ [(ld_addr ld, d)]\<rparr>)"
proof -
  from l have al: "ld_addr ld mod 4 = 0" by (simp add: loaded_def)
  from store_bytes_length [OF s] have len: "length m' = length (ld_mem ld)" .
  have "read_word m' b = Some (last_stored (ld_stored ld @ [(ld_addr ld, d)]) b)"
    if b: "b mod 4 = 0" "0 \<le> b" "b + 3 < int (length m')" for b
  proof (cases "b = ld_addr ld")
    case True
    with read_word_stored [OF s] show ?thesis by (simp add: last_stored_append)
  next
    case False
    with al b(1) have "b + 3 < ld_addr ld \<or> ld_addr ld + 3 < b" by presburger
    from read_word_other [OF s b(2) _ this] b(3) len
    have "read_word m' b = read_word (ld_mem ld) b" by simp
    also have "\<dots> = Some (last_stored (ld_stored ld) b)"
      using l b len by (simp add: loaded_def)
    finally show ?thesis using False by (simp add: last_stored_append)
  qed
  with al show ?thesis by (simp add: loaded_def)
qed

lemma load_words_loaded:
  "load_words ptr ld = Some ld' \<Longrightarrow> loaded ld \<Longrightarrow>
   loaded ld' \<and> length (ld_mem ld') = length (ld_mem ld)"
proof (induction ptr ld rule: load_words.induct)
  case (1 ptr ld)
  show ?case
  proof (cases "at_line_end ptr")
    case True
    with "1.prems" show ?thesis by (subst (asm) load_words.simps) simp
  next
    case False
    let ?d = "word_of_int (fst (strtol16 ptr)) :: 32 word"
    from False "1.prems"(1) obtain m' where
      s: "store_bytes (ld_addr ld) ?d [0 ..< 4] (ld_mem ld) = Some m'"
      and r: "load_words (skip_spaces (snd (strtol16 ptr)))
                (ld\<lparr>ld_addr := ld_addr ld + 4, ld_mem := m',
                    ld_stored := ld_stored ld @ [(ld_addr ld, ?d)]\<rparr>) = Some ld'"
      by (subst (asm) load_words.simps) (auto split: option.splits)
    from "1.IH" [OF False s r loaded_store [OF "1.prems"(2) s]] store_bytes_length [OF s]
    show ?thesis by simp
  qed
qed

lemma four_dvd: "(4::int) dvd 2 ^ LENGTH(32)"
  by (rule dvdI [where k = "2 ^ 30"]) simp

lemma sint_mod_4: "sint w mod 4 = uint w mod 4" for w :: "32 word"
proof -
  have "uint w = sint w mod 2 ^ LENGTH(32)"
    by (simp only: uint_sint take_bit_eq_mod)
  then have "uint w mod 4 = sint w mod 2 ^ LENGTH(32) mod 4" by (rule arg_cong)
  also have "\<dots> = sint w mod 4" by (rule mod_mod_cancel [OF four_dvd])
  finally show ?thesis by (rule sym)
qed

lemma sint_times_4: "sint (word_of_int (k * 4) :: 32 word) mod 4 = 0"
proof -
  have "uint (word_of_int (k * 4) :: 32 word) mod 4 = (k * 4) mod 2 ^ LENGTH(32) mod 4"
    by (simp only: uint_word_of_int)
  also have "\<dots> = (k * 4) mod 4" by (rule mod_mod_cancel [OF four_dvd])
  also have "\<dots> = 0" by simp
  finally show ?thesis by (simp only: sint_mod_4)
qed

lemma load_line_loaded:
  assumes "load_line buf ld = Some ld'" and "loaded ld"
  shows "loaded ld' \<and> length (ld_mem ld') = length (ld_mem ld)"
proof (cases buf)
  case Nil
  with assms load_words_loaded [of buf ld ld'] show ?thesis by (simp add: load_line_def)
next
  case (Cons c ptr)
  consider "c = CHR ''#'' \<or> c = CHR ''/''" | "c = CHR ''@''" | "c \<noteq> CHR ''#''" "c \<noteq> CHR ''/''" "c \<noteq> CHR ''@''"
    by blast
  then show ?thesis
  proof cases
    case 1
    with assms Cons show ?thesis by (auto simp: load_line_def)
  next
    case 2
    let ?ld = "ld\<lparr>ld_addr := sint (word_of_int (fst (strtol16 ptr) * 4) :: 32 word)\<rparr>"
    from 2 assms(1) Cons have w: "load_words (skip_spaces (snd (strtol16 ptr))) ?ld = Some ld'"
      by (auto simp: load_line_def Let_def split: if_splits)
    have "loaded ?ld" using assms(2) sint_times_4 by (simp add: loaded_def)
    from load_words_loaded [OF w this] show ?thesis by simp
  next
    case 3
    with assms(1) Cons have "load_words buf ld = Some ld'" by (simp add: load_line_def)
    from load_words_loaded [OF this assms(2)] show ?thesis .
  qed
qed

lemma load_lines_loaded:
  "load_lines f ld = Some ld' \<Longrightarrow> loaded ld \<Longrightarrow>
   loaded ld' \<and> length (ld_mem ld') = length (ld_mem ld)"
proof (induction f ld rule: load_lines.induct)
  case (1 f ld)
  show ?case
  proof (cases "fgets 256 f")
    case None
    with "1.prems" show ?thesis by (subst (asm) load_lines.simps) simp
  next
    case (Some x)
    obtain buf rest where x: "x = (buf, rest)" by (cases x)
    with Some "1.prems"(1) obtain ld1 where l1: "load_line buf ld = Some ld1"
      and r: "load_lines rest ld1 = Some ld'"
      by (subst (asm) load_lines.simps) (auto split: option.splits)
    from load_line_loaded [OF l1 "1.prems"(2)] have a: "loaded ld1"
      and b: "length (ld_mem ld1) = length (ld_mem ld)" by simp_all
    from "1.IH" [OF Some x [symmetric] l1 r a] b show ?thesis by simp
  qed
qed

lemma load_program_loaded:
  assumes "load_program cfg f m0 = Some ld" and "length m0 = nat (mem_sz cfg)"
  shows "loaded ld \<and> length (ld_mem ld) = length m0"
proof -
  from assms obtain z where z: "memset m0 0 (mem_sz cfg) = Some z"
    and l: "load_lines f \<lparr>ld_addr = 0, ld_mem = z, ld_stored = []\<rparr> = Some ld"
    by (auto simp: load_program_def split: option.splits)
  from z assms(2) have z_eq: "z = replicate (length m0) 0"
    by (auto simp: memset_def split: if_splits)
  have "loaded \<lparr>ld_addr = 0, ld_mem = z, ld_stored = []\<rparr>"
    by (simp add: loaded_def z_eq read_word_zero last_stored_def)
  from load_lines_loaded [OF l this] z_eq show ?thesis by simp
qed

text \<open>
  The write loop stays inside a buffer of whole words when the range starts on a word
  boundary at or above 0 and ends at or below the size of the buffer.
\<close>

lemma write_words_defined:
  "length m mod 4 = 0 \<Longrightarrow> e \<le> int (length m) \<Longrightarrow> 0 \<le> a \<Longrightarrow> a mod 4 = 0 \<Longrightarrow>
   \<exists>ls. write_words (Some ls0) m a e = Some ls"
proof (induction "Some ls0" m a e arbitrary: ls0 rule: write_words.induct)
  case (1 m a e)
  show ?case
  proof (cases "a < e")
    case False
    then show ?thesis by (subst write_words.simps) simp
  next
    case True
    from "1.prems"(1) have "int (length m mod 4) = 0" by simp
    then have "int (length m) mod 4 = 0" by (simp add: zmod_int)
    with True "1.prems" have r: "a + 3 < int (length m)" by presburger
    with "1.prems"(3) obtain d where d: "read_word m a = Some d"
      by (auto simp: read_word_def arr_get_def)
    from "1.prems" have n: "0 \<le> a + 4" "(a + 4) mod 4 = 0" by presburger+
    from "1.hyps" [OF True d refl "1.prems"(1,2) n] obtain ls where
      "write_words (Some (ls0 @ [hex08 d])) m (a + 4) e = Some ls" by blast
    with True d show ?thesis by (subst write_words.simps) simp
  qed
qed

text \<open>
  C9. For every image file that the loader stores inside the buffer and every range inside
  the buffer that starts on a word boundary: the lines of the dump, read back as hexadecimal
  numbers, are the words that the loader wrote for the addresses \<open>start, start + 4, ...\<close>
  below \<open>end\<close>, that is for each address the word that the loader stored there last, or
  zero where the loader stored nothing after clearing the buffer.
\<close>

theorem dump_after_load_round_trip:
  assumes "length m0 = nat (mem_sz cfg)"
    and "load_program cfg f m0 = Some ld"
    and "write_words (fopen_w True) (ld_mem ld) a e = Some ls"
    and "a mod 4 = 0"
  shows "map parse_hex ls = map (last_stored (ld_stored ld)) (word_addrs a e)"
proof -
  have words: "map (Some \<circ> parse_hex) ls = map (read_word (ld_mem ld)) (word_addrs a e)"
    using assms(3) by (rule dump_lines)
  from load_program_loaded [OF assms(2,1)] have l: "loaded ld" by simp
  have "read_word (ld_mem ld) x = Some (last_stored (ld_stored ld) x)"
    if x: "x \<in> set (word_addrs a e)" for x
  proof -
    from x have "read_word (ld_mem ld) x \<in> set (map (Some \<circ> parse_hex) ls)"
      unfolding words by simp
    then obtain d where "read_word (ld_mem ld) x = Some d" by auto
    from read_word_SomeD [OF this] word_addrs_aligned [OF assms(4) x] l
    show ?thesis by (simp add: loaded_def)
  qed
  then have "map (read_word (ld_mem ld)) (word_addrs a e) =
      map (Some \<circ> last_stored (ld_stored ld)) (word_addrs a e)"
    by simp
  with words have "map Some (map parse_hex ls) = map Some (map (last_stored (ld_stored ld)) (word_addrs a e))"
    by simp
  then show ?thesis by (simp only: inj_map_eq_map [OF inj_Some])
qed

text \<open>
  C9, as stated for every byte range, fails: the image with the words \<^verbatim>\<open>a1a2a3a4\<close>,
  \<^verbatim>\<open>b1b2b3b4\<close> and \<^verbatim>\<open>c1c2c3c4\<close> at the addresses 0, 4 and 8 is loaded, and the range from 1
  to 9 is dumped. The two lines of the dump read back as \<^verbatim>\<open>b4a1a2a3\<close> and \<^verbatim>\<open>c4b1b2b3\<close>,
  each made of bytes of two neighbouring words: neither is a word that the loader wrote.
\<close>

theorem dump_of_unaligned_range_counterexample:
  "length (replicate 16 (5 :: byte)) = nat (mem_sz cfg_w) \<and>
   load_program cfg_w img_u (replicate 16 5) = Some ld_u \<and>
   ld_stored ld_u = [(0, 0xa1a2a3a4), (4, 0xb1b2b3b4), (8, 0xc1c2c3c4)] \<and>
   write_words (fopen_w True) (ld_mem ld_u) 1 9 = Some [''b4a1a2a3'', ''c4b1b2b3''] \<and>
   map parse_hex [''b4a1a2a3'', ''c4b1b2b3''] = [0xb4a1a2a3, 0xc4b1b2b3] \<and>
   0xb4a1a2a3 \<notin> snd ` set (ld_stored ld_u) \<and> 0xc4b1b2b3 \<notin> snd ` set (ld_stored ld_u)"
  by code_simp

text \<open>
  The image with two words from word address 1, loaded into a buffer of 16 stale bytes and
  dumped from 0 to 16.
\<close>

theorem dump_after_load_round_trip_witness:
  "length (replicate 16 (5 :: byte)) = nat (mem_sz cfg_w) \<and>
   load_program cfg_w img_w (replicate 16 5) = Some ld_w \<and>
   write_words (fopen_w True) (ld_mem ld_w) 0 16 =
     Some [''00000000'', ''11223344'', ''deadbeef'', ''00000000''] \<and>
   (0 :: int) mod 4 = 0 \<and>
   ld_stored ld_w = [(4, 0x11223344), (8, 0xdeadbeef)] \<and>
   map parse_hex [''00000000'', ''11223344'', ''deadbeef'', ''00000000''] = [0, 0x11223344, 0xdeadbeef, 0]"
proof -
  have a: "length (replicate 16 (5 :: byte)) = nat (mem_sz cfg_w)" by code_simp
  have b: "load_program cfg_w img_w (replicate 16 5) = Some ld_w" by code_simp
  have c: "write_words (fopen_w True) (ld_mem ld_w) 0 16 =
     Some [''00000000'', ''11223344'', ''deadbeef'', ''00000000'']" by code_simp
  have d: "ld_stored ld_w = [(4, 0x11223344), (8, 0xdeadbeef)]" by code_simp
  have al: "(0::int) mod 4 = 0" by simp
  have v: "map (last_stored (ld_stored ld_w)) (word_addrs 0 16) = [0, 0x11223344, 0xdeadbeef, 0]"
    by code_simp
  from dump_after_load_round_trip [OF a b c al]
  have "map parse_hex [''00000000'', ''11223344'', ''deadbeef'', ''00000000''] = [0, 0x11223344, 0xdeadbeef, 0]"
    by (simp only: v)
  with a b c d al show ?thesis by (simp only: simp_thms)
qed

text \<open>
  An image file outside the theorem: after the word of a line that ends with a carriage
  return and a newline the inner loop of the loader does not stop; \<^verbatim>\<open>strtol\<close> converts
  nothing, and zeros are stored at rising addresses until the loop leaves the buffer.
\<close>

lemma load_program_carriage_return:
  "load_program cfg_w img_r (replicate 16 5) = None"
  by code_simp

section \<open>Residue between the programs of a batch\<close>

subsection \<open>One cycle on two states\<close>

lemma same_response_refl [simp]: "same_response r r"
  by (simp add: same_response_def)

lemma same_response_sym: "same_response r1 r2 \<Longrightarrow> same_response r2 r1"
  by (cases r1; cases r2) (auto simp: same_response_def)

lemma same_outputs_sym: "same_outputs t1 t2 \<Longrightarrow> same_outputs t2 t1"
  by (simp add: same_outputs_def)

lemma same_ports_sym:
  assumes "same_ports t1 t2"
  shows "same_ports t2 t1"
proof -
  from assms have c: "clk_i t1 = clk_i t2" "rst_ni t1 = rst_ni t2"
    and r: "same_response (mem_rvalid_i t1, mem_rdata_i t1, mem_err_i t1)
                   (mem_rvalid_i t2, mem_rdata_i t2, mem_err_i t2)"
    and o: "same_outputs t1 t2"
    by (simp_all add: same_ports_def)
  from c same_response_sym [OF r] same_outputs_sym [OF o] show ?thesis
    by (simp add: same_ports_def)
qed

lemma alikeD:
  assumes "alike s1 s2"
  shows "mem s1 = mem s2"
    and "length (mem_rvalid_queue s1) = length (mem_rvalid_queue s2)"
    and "length (mem_rdata_queue s1) = length (mem_rdata_queue s2)"
    and "length (mem_err_queue s1) = length (mem_err_queue s2)"
    and "i < length (mem_rvalid_queue s1) \<Longrightarrow> same_response (slot s1 i) (slot s2 i)"
    and "same_ports (vtop s1) (vtop s2)"
  using assms unfolding alike_def by blast+

lemma alikeI:
  assumes "mem s1 = mem s2"
    and "length (mem_rvalid_queue s1) = length (mem_rvalid_queue s2)"
    and "length (mem_rdata_queue s1) = length (mem_rdata_queue s2)"
    and "length (mem_err_queue s1) = length (mem_err_queue s2)"
    and "\<And>i. i < length (mem_rvalid_queue s1) \<Longrightarrow> same_response (slot s1 i) (slot s2 i)"
    and "same_ports (vtop s1) (vtop s2)"
  shows "alike s1 s2"
  using assms unfolding alike_def by blast

lemma alike_sym:
  assumes "alike s1 s2"
  shows "alike s2 s1"
proof (rule alikeI)
  show "mem s2 = mem s1" by (rule alikeD(1) [OF assms, symmetric])
  show "length (mem_rvalid_queue s2) = length (mem_rvalid_queue s1)"
    by (rule alikeD(2) [OF assms, symmetric])
  show "length (mem_rdata_queue s2) = length (mem_rdata_queue s1)"
    by (rule alikeD(3) [OF assms, symmetric])
  show "length (mem_err_queue s2) = length (mem_err_queue s1)"
    by (rule alikeD(4) [OF assms, symmetric])
  show "same_ports (vtop s2) (vtop s1)" by (rule same_ports_sym [OF alikeD(6) [OF assms]])
  fix i assume "i < length (mem_rvalid_queue s2)"
  then have "i < length (mem_rvalid_queue s1)" by (simp only: alikeD(2) [OF assms])
  then show "same_response (slot s2 i) (slot s1 i)"
    by (rule same_response_sym [OF alikeD(5) [OF assms]])
qed

lemma alike_allocated_sym: "alike_allocated cfg s1 s2 \<Longrightarrow> alike_allocated cfg s2 s1"
  by (simp add: alike_allocated_def alike_sym)

lemma eval_same_ports:
  assumes "ignores_invalid_response dut" and "same_ports t1 t2"
  shows "same_ports (eval dut t1) (eval dut t2)"
proof -
  from assms have "same_outputs (dut t1) (dut t2)" by (simp add: ignores_invalid_response_def)
  with assms(2) show ?thesis by (simp add: same_ports_def same_outputs_def eval_def)
qed

lemma same_ports_clk:
  "same_ports t1 t2 \<Longrightarrow> same_ports (t1\<lparr>clk_i := c\<rparr>) (t2\<lparr>clk_i := c\<rparr>)"
  by (simp add: same_ports_def same_outputs_def)

lemma same_ports_response:
  "same_ports t1 t2 \<Longrightarrow> same_response r1 r2 \<Longrightarrow>
   same_ports (t1\<lparr>mem_rvalid_i := fst r1, mem_rdata_i := fst (snd r1), mem_err_i := snd (snd r1)\<rparr>)
              (t2\<lparr>mem_rvalid_i := fst r2, mem_rdata_i := fst (snd r2), mem_err_i := snd (snd r2)\<rparr>)"
  by (cases r1; cases r2) (simp add: same_ports_def same_outputs_def same_response_def)

lemma cycle_top_same_ports:
  assumes "ignores_invalid_response dut" and "same_ports t1 t2" and "same_response r1 r2"
  shows "same_ports (cycle_top dut t1 r1) (cycle_top dut t2 r2)"
  unfolding cycle_top_def
  by (intro eval_same_ports [OF assms(1)] same_ports_clk same_ports_response assms(2,3))

lemma read_bytes_None_iff:
  "length q1 = length q2 \<Longrightarrow> read_bytes m a is q1 = None \<longleftrightarrow> read_bytes m a is q2 = None"
proof (induction "is" arbitrary: q1 q2)
  case Nil
  then show ?case by simp
next
  case (Cons i "is")
  show ?case
  proof (cases "arr_get m (a + int i)")
    case None
    then show ?thesis by simp
  next
    case (Some b)
    show ?thesis
    proof (cases "q1 = []")
      case True
      with Cons.prems have "q2 = []" by simp
      with True Some show ?thesis by (simp add: arr_get_def)
    next
      case False
      with Cons.prems have ne: "q2 \<noteq> []" by auto
      have "length (q1[0 := q1 ! 0 OR push_bit (i * 8) (ucast b)]) =
            length (q2[0 := q2 ! 0 OR push_bit (i * 8) (ucast b)])"
        using Cons.prems by simp
      from Cons.IH [OF this] False ne Some show ?thesis
        by (simp add: arr_get_def arr_set_def)
    qed
  qed
qed

lemma read_memory_request_None_iff:
  assumes "alike s1 s2"
  shows "read_memory_request cfg s1 = None \<longleftrightarrow> read_memory_request cfg s2 = None"
proof -
  from assms have o: "same_outputs (vtop s1) (vtop s2)" and m: "mem s1 = mem s2"
    and l: "length (mem_rvalid_queue s1) = length (mem_rvalid_queue s2)"
      "length (mem_rdata_queue s1) = length (mem_rdata_queue s2)"
      "length (mem_err_queue s1) = length (mem_err_queue s2)"
    by (simp_all add: alike_def same_ports_def)
  from o have a: "mem_addr_o (vtop s1) = mem_addr_o (vtop s2)" by (simp add: same_outputs_def)
  from o m have w: "write_request cfg (vtop s1) (mem s1) = write_request cfg (vtop s2) (mem s2)"
    by (simp add: write_request_def same_outputs_def)
  show ?thesis
  proof (cases "write_request cfg (vtop s2) (mem s2)")
    case None
    with w show ?thesis by (simp add: read_memory_request_def)
  next
    case (Some m')
    show ?thesis
    proof (cases "mem_rvalid_queue s1 = [] \<or> mem_err_queue s1 = [] \<or> mem_rdata_queue s1 = []")
      case True
      with l have "mem_rvalid_queue s2 = [] \<or> mem_err_queue s2 = [] \<or> mem_rdata_queue s2 = []"
        by auto
      with True show ?thesis
        by (auto simp: read_memory_request_def Let_def arr_set_def split: bind_splits)
    next
      case False
      with l have ne: "mem_rvalid_queue s2 \<noteq> []" "mem_err_queue s2 \<noteq> []" "mem_rdata_queue s2 \<noteq> []"
        by auto
      have "length ((mem_rdata_queue s1)[0 := 0]) = length ((mem_rdata_queue s2)[0 := 0])"
        using l by simp
      note rb = read_bytes_None_iff [OF this, of m' "effective_addr cfg (mem_addr_o (vtop s2))" "bus_bytes cfg"]
      from rb
      have "(\<exists>v. read_bytes m' (effective_addr cfg (mem_addr_o (vtop s2))) (bus_bytes cfg)
                 ((mem_rdata_queue s1)[0 := 0]) = Some v) =
            (\<exists>v. read_bytes m' (effective_addr cfg (mem_addr_o (vtop s2))) (bus_bytes cfg)
                 ((mem_rdata_queue s2)[0 := 0]) = Some v)"
        by (metis not_Some_eq)
      with rb False ne Some w a show ?thesis
        by (simp add: read_memory_request_def Let_def arr_set_def split: bind_splits)
    qed
  qed
qed

lemma cycle_fields:
  assumes a: "allocated cfg s" and s1: "read_memory_request cfg s = Some s1"
  shows "\<exists>s'. cycle dut cfg s = Some s' \<and> mem s' = mem s1 \<and>
           mem_rvalid_queue s' = shifted (nat (mem_latency cfg - 1)) (mem_rvalid_queue s1) \<and>
           mem_rdata_queue s' = shifted (nat (mem_latency cfg - 1)) (mem_rdata_queue s1) \<and>
           mem_err_queue s' = shifted (nat (mem_latency cfg - 1)) (mem_err_queue s1) \<and>
           vtop s' = cycle_top dut (vtop s) (slot s1 (nat (mem_latency cfg - 1)))"
proof -
  from read_memory_request_SomeD [OF s1] obtain m where
    pos: "0 < length (mem_rvalid_queue s)"
    and s1_eq: "s1 = s\<lparr>mem := m,
                  mem_rvalid_queue := (mem_rvalid_queue s)[0 := mem_req_o (vtop s)],
                  mem_rdata_queue := (mem_rdata_queue s)
                     [0 := mem_word m (effective_addr cfg (mem_addr_o (vtop s))) (bus_bytes cfg)],
                  mem_err_queue := (mem_err_queue s)
                     [0 := mem_sz cfg \<le> effective_addr cfg (mem_addr_o (vtop s))]\<rparr>"
    by blast
  from pos a have "0 < nat (mem_latency cfg)" unfolding allocated_def by metis
  then have L: "1 \<le> mem_latency cfg" by simp
  from a s1_eq have len: "length (mem_rvalid_queue s1) = nat (mem_latency cfg)"
    "length (mem_rdata_queue s1) = nat (mem_latency cfg)"
    "length (mem_err_queue s1) = nat (mem_latency cfg)"
    by (simp_all add: allocated_def)
  have vt: "vtop s1 = vtop s" using s1_eq by simp
  let ?n = "nat (mem_latency cfg - 1)"
  from L have n: "?n < nat (mem_latency cfg)" by simp
  define t where "t = eval dut ((eval dut ((vtop s1)\<lparr>clk_i := True\<rparr>))
           \<lparr>mem_rvalid_i := mem_rvalid_queue s1 ! ?n,
               mem_rdata_i := mem_rdata_queue s1 ! ?n, mem_err_i := mem_err_queue s1 ! ?n\<rparr>)"
  define s3 where "s3 = s1\<lparr>vtop := t,
         mem_rvalid_queue := shifted ?n (mem_rvalid_queue s1),
         mem_rdata_queue := shifted ?n (mem_rdata_queue s1),
         mem_err_queue := shifted ?n (mem_err_queue s1)\<rparr>"
  have "fulfill_memory_request dut cfg (s1\<lparr>vtop := eval dut ((vtop s1)\<lparr>clk_i := True\<rparr>)\<rparr>)
      = advance ?n (s1\<lparr>vtop := t\<rparr>)"
    using L len n unfolding fulfill_memory_request_def Let_def t_def
    by (simp add: arr_get_def)
  also have "\<dots> = Some s3"
    unfolding s3_def using len n by (subst advance_eq) simp_all
  finally have f: "fulfill_memory_request dut cfg (s1\<lparr>vtop := eval dut ((vtop s1)\<lparr>clk_i := True\<rparr>)\<rparr>)
      = Some s3" .
  define s' where "s' = log_cycle (s3\<lparr>vtop := eval dut ((vtop s3)\<lparr>clk_i := False\<rparr>)\<rparr>)"
  have c: "cycle dut cfg s = Some s'"
    unfolding cycle_def Let_def s'_def by (simp add: s1 f)
  have "vtop s3 = t" by (simp add: s3_def)
  then have "vtop s' = cycle_top dut (vtop s) (slot s1 ?n)"
    by (simp add: s'_def log_cycle_def t_def cycle_top_def slot_def vt)
  moreover have "mem s' = mem s1"
    "mem_rvalid_queue s' = shifted ?n (mem_rvalid_queue s1)"
    "mem_rdata_queue s' = shifted ?n (mem_rdata_queue s1)"
    "mem_err_queue s' = shifted ?n (mem_err_queue s1)"
    by (simp_all add: s'_def s3_def log_cycle_def)
  ultimately show ?thesis using c by blast
qed

lemma cycle_None_iff:
  assumes "allocated cfg s"
  shows "cycle dut cfg s = None \<longleftrightarrow> read_memory_request cfg s = None"
proof (cases "read_memory_request cfg s")
  case None
  then show ?thesis by (simp add: cycle_def)
next
  case (Some s1)
  from cycle_fields [OF assms Some, of dut] obtain s' where "cycle dut cfg s = Some s'" by blast
  with Some show ?thesis by simp
qed

lemma cycle_alike:
  assumes i: "ignores_invalid_response dut"
    and a1: "allocated cfg s1" and a2: "allocated cfg s2" and al: "alike s1 s2"
  shows "rel_option alike (cycle dut cfg s1) (cycle dut cfg s2)"
proof (cases "read_memory_request cfg s1")
  case None
  with read_memory_request_None_iff [OF al, of cfg] have "read_memory_request cfg s2 = None" by simp
  with None cycle_None_iff [OF a1, of dut] cycle_None_iff [OF a2, of dut] show ?thesis by simp
next
  case (Some x1)
  with read_memory_request_None_iff [OF al, of cfg] obtain x2 where
    x2: "read_memory_request cfg s2 = Some x2" by auto
  let ?n = "nat (mem_latency cfg - 1)"
  from al have o: "same_outputs (vtop s1) (vtop s2)" and p: "same_ports (vtop s1) (vtop s2)"
    and m: "mem s1 = mem s2"
    and sl: "\<forall>i < length (mem_rvalid_queue s1). same_response (slot s1 i) (slot s2 i)"
    by (simp_all add: alike_def same_ports_def)
  from o m have w: "write_request cfg (vtop s1) (mem s1) = write_request cfg (vtop s2) (mem s2)"
    by (simp add: write_request_def same_outputs_def)
  from read_memory_request_SomeD [OF Some] obtain m1 where
    w1: "write_request cfg (vtop s1) (mem s1) = Some m1"
    and pos: "0 < length (mem_rvalid_queue s1)"
    and x1_eq: "x1 = s1\<lparr>mem := m1,
                  mem_rvalid_queue := (mem_rvalid_queue s1)[0 := mem_req_o (vtop s1)],
                  mem_rdata_queue := (mem_rdata_queue s1)
                     [0 := mem_word m1 (effective_addr cfg (mem_addr_o (vtop s1))) (bus_bytes cfg)],
                  mem_err_queue := (mem_err_queue s1)
                     [0 := mem_sz cfg \<le> effective_addr cfg (mem_addr_o (vtop s1))]\<rparr>"
    by blast
  from read_memory_request_SomeD [OF x2] obtain m2 where
    w2: "write_request cfg (vtop s2) (mem s2) = Some m2"
    and x2_eq: "x2 = s2\<lparr>mem := m2,
                  mem_rvalid_queue := (mem_rvalid_queue s2)[0 := mem_req_o (vtop s2)],
                  mem_rdata_queue := (mem_rdata_queue s2)
                     [0 := mem_word m2 (effective_addr cfg (mem_addr_o (vtop s2))) (bus_bytes cfg)],
                  mem_err_queue := (mem_err_queue s2)
                     [0 := mem_sz cfg \<le> effective_addr cfg (mem_addr_o (vtop s2))]\<rparr>"
    by blast
  from w w1 w2 have mm: "m1 = m2" by simp
  from a1 a2 have len: "length (mem_rvalid_queue s1) = nat (mem_latency cfg)"
    "length (mem_rdata_queue s1) = nat (mem_latency cfg)"
    "length (mem_err_queue s1) = nat (mem_latency cfg)"
    "length (mem_rvalid_queue s2) = nat (mem_latency cfg)"
    "length (mem_rdata_queue s2) = nat (mem_latency cfg)"
    "length (mem_err_queue s2) = nat (mem_latency cfg)"
    by (simp_all add: allocated_def)
  have x_slot: "same_response (slot x1 i) (slot x2 i)" if "i < nat (mem_latency cfg)" for i
  proof (cases "i = 0")
    case True
    with that len o mm show ?thesis
      unfolding x1_eq x2_eq by (simp add: slot_def same_outputs_def)
  next
    case False
    with that sl len show ?thesis
      unfolding x1_eq x2_eq by (simp add: slot_def)
  qed
  from pos len have n: "?n < nat (mem_latency cfg)" by simp
  from cycle_fields [OF a1 Some, of dut] obtain y1 where c1: "cycle dut cfg s1 = Some y1"
    and y1: "mem y1 = mem x1"
      "mem_rvalid_queue y1 = shifted ?n (mem_rvalid_queue x1)"
      "mem_rdata_queue y1 = shifted ?n (mem_rdata_queue x1)"
      "mem_err_queue y1 = shifted ?n (mem_err_queue x1)"
      "vtop y1 = cycle_top dut (vtop s1) (slot x1 ?n)"
    by blast
  from cycle_fields [OF a2 x2, of dut] obtain y2 where c2: "cycle dut cfg s2 = Some y2"
    and y2: "mem y2 = mem x2"
      "mem_rvalid_queue y2 = shifted ?n (mem_rvalid_queue x2)"
      "mem_rdata_queue y2 = shifted ?n (mem_rdata_queue x2)"
      "mem_err_queue y2 = shifted ?n (mem_err_queue x2)"
      "vtop y2 = cycle_top dut (vtop s2) (slot x2 ?n)"
    by blast
  have xl: "length (mem_rvalid_queue x1) = nat (mem_latency cfg)"
    "length (mem_rdata_queue x1) = nat (mem_latency cfg)"
    "length (mem_err_queue x1) = nat (mem_latency cfg)"
    "length (mem_rvalid_queue x2) = nat (mem_latency cfg)"
    "length (mem_rdata_queue x2) = nat (mem_latency cfg)"
    "length (mem_err_queue x2) = nat (mem_latency cfg)"
    using len unfolding x1_eq x2_eq by simp_all
  have y_slot: "same_response (slot y1 i) (slot y2 i)" if "i < nat (mem_latency cfg)" for i
  proof -
    have "slot y1 i = (if 1 \<le> i \<and> i \<le> ?n then slot x1 (i - 1) else slot x1 i)"
      using that xl by (simp add: slot_def y1 nth_shifted)
    moreover have "slot y2 i = (if 1 \<le> i \<and> i \<le> ?n then slot x2 (i - 1) else slot x2 i)"
      using that xl by (simp add: slot_def y2 nth_shifted)
    ultimately show ?thesis using x_slot [of i] x_slot [of "i - 1"] that by simp
  qed
  have "same_ports (vtop y1) (vtop y2)"
    using cycle_top_same_ports [OF i p x_slot [OF n]] by (simp add: y1 y2)
  moreover have "mem y1 = mem y2" using mm unfolding y1 y2 x1_eq x2_eq by simp
  ultimately have "alike y1 y2"
    unfolding alike_def using y_slot xl by (simp add: y1 y2)
  with c1 c2 show ?thesis by simp
qed

lemma cycle_alike_allocated:
  assumes "ignores_invalid_response dut" and "alike_allocated cfg s1 s2"
  shows "rel_option (alike_allocated cfg) (cycle dut cfg s1) (cycle dut cfg s2)"
proof -
  from assms(2) have a1: "allocated cfg s1" and a2: "allocated cfg s2" and al: "alike s1 s2"
    by (simp_all add: alike_allocated_def)
  from cycle_alike [OF assms(1) a1 a2 al] show ?thesis
  proof (cases rule: option.rel_cases)
    case None
    then show ?thesis by simp
  next
    case (Some y1 y2)
    from cycle_allocated [OF Some(1) a1] cycle_allocated [OF Some(2) a2] Some(3)
    have "alike_allocated cfg y1 y2" by (simp add: alike_allocated_def)
    with Some(1,2) show ?thesis by simp
  qed
qed

lemma next_end_cnt_alike: "alike s1 s2 \<Longrightarrow> next_end_cnt n s1 = next_end_cnt n s2"
  by (simp add: alike_def same_ports_def same_outputs_def next_end_cnt_def)

subsection \<open>The loop on two states\<close>

lemma run_loop_alike_Some:
  assumes "run_loop dut cfg n s1 = Some r1"
  shows "ignores_invalid_response dut \<longrightarrow>
   (\<forall>s2. alike_allocated cfg s1 s2 \<longrightarrow>
      (\<exists>r2. run_loop dut cfg n s2 = Some r2 \<and> rel_option (alike_allocated cfg) r1 r2))"
proof (rule run_loop.raw_induct [where P = "\<lambda>dut cfg n s1 r1. ignores_invalid_response dut \<longrightarrow>
   (\<forall>s2. alike_allocated cfg s1 s2 \<longrightarrow>
      (\<exists>r2. run_loop dut cfg n s2 = Some r2 \<and> rel_option (alike_allocated cfg) r1 r2))", OF _ assms])
  fix loop :: "('a Vvproc_top \<Rightarrow> 'a Vvproc_top) \<Rightarrow> config \<Rightarrow> int \<Rightarrow> 'a sim \<Rightarrow> 'a sim option option"
    and dut cfg n s1 r1
  assume IH: "\<And>dut cfg n s1 r1. loop dut cfg n s1 = Some r1 \<Longrightarrow>
      ignores_invalid_response dut \<longrightarrow>
      (\<forall>s2. alike_allocated cfg s1 s2 \<longrightarrow>
        (\<exists>r2. run_loop dut cfg n s2 = Some r2 \<and> rel_option (alike_allocated cfg) r1 r2))"
    and body: "(if n < extra_cycles cfg
      then case cycle dut cfg s1 of None \<Rightarrow> Some None
           | Some s' \<Rightarrow> loop dut cfg (next_end_cnt n s') s'
      else Some (Some s1)) = Some r1"
  show "ignores_invalid_response dut \<longrightarrow>
   (\<forall>s2. alike_allocated cfg s1 s2 \<longrightarrow>
      (\<exists>r2. run_loop dut cfg n s2 = Some r2 \<and> rel_option (alike_allocated cfg) r1 r2))"
  proof (intro impI allI)
    fix s2
    assume i: "ignores_invalid_response dut" and r: "alike_allocated cfg s1 s2"
    show "\<exists>r2. run_loop dut cfg n s2 = Some r2 \<and> rel_option (alike_allocated cfg) r1 r2"
    proof (cases "n < extra_cycles cfg")
      case False
      with body have "r1 = Some s1" by simp
      moreover from False have "run_loop dut cfg n s2 = Some (Some s2)"
        by (subst run_loop.simps) simp
      ultimately show ?thesis using r by simp
    next
      case True
      from cycle_alike_allocated [OF i r] show ?thesis
      proof (cases rule: option.rel_cases)
        case None
        with True body have "r1 = None" by simp
        moreover from None True have "run_loop dut cfg n s2 = Some None"
          by (subst run_loop.simps) simp
        ultimately show ?thesis by simp
      next
        case (Some y1 y2)
        with True body have "loop dut cfg (next_end_cnt n y1) y1 = Some r1" by simp
        from IH [OF this] i Some(3) obtain r2 where
          r2: "run_loop dut cfg (next_end_cnt n y1) y2 = Some r2"
          and rel: "rel_option (alike_allocated cfg) r1 r2"
          by blast
        from Some(3) have "next_end_cnt n y1 = next_end_cnt n y2"
          by (simp add: alike_allocated_def next_end_cnt_alike)
        with r2 Some(2) True have "run_loop dut cfg n s2 = Some r2"
          by (subst run_loop.simps) simp
        with rel show ?thesis by blast
      qed
    qed
  qed
qed

lemma run_loop_alike:
  assumes i: "ignores_invalid_response dut" and r: "alike_allocated cfg s1 s2"
  shows "rel_option (rel_option (alike_allocated cfg)) (run_loop dut cfg n s1) (run_loop dut cfg n s2)"
proof (cases "run_loop dut cfg n s1")
  case (Some r1)
  from run_loop_alike_Some [OF Some] i r obtain r2 where
    "run_loop dut cfg n s2 = Some r2" "rel_option (alike_allocated cfg) r1 r2" by blast
  with Some show ?thesis by simp
next
  case None
  show ?thesis
  proof (cases "run_loop dut cfg n s2")
    case n2: None
    with None show ?thesis by simp
  next
    case (Some r2)
    from run_loop_alike_Some [OF Some] i alike_allocated_sym [OF r] obtain r1 where
      "run_loop dut cfg n s1 = Some r1" by blast
    with None show ?thesis by simp
  qed
qed

lemma cycles_alike:
  assumes i: "ignores_invalid_response dut"
  shows "alike_allocated cfg s1 s2 \<Longrightarrow>
         rel_option (alike_allocated cfg) (cycles dut cfg k s1) (cycles dut cfg k s2)"
proof (induction k arbitrary: s1 s2)
  case 0
  then show ?case by simp
next
  case (Suc k)
  from cycle_alike_allocated [OF i Suc.prems] show ?case
  proof (cases rule: option.rel_cases)
    case None
    then show ?thesis by simp
  next
    case (Some y1 y2)
    with Suc.IH [OF Some(3)] show ?thesis by simp
  qed
qed

lemma run_loop_allocated:
  assumes "run_loop dut cfg n s = Some r"
  shows "allocated cfg s \<longrightarrow> (\<forall>s'. r = Some s' \<longrightarrow> allocated cfg s')"
proof (rule run_loop.raw_induct [where P = "\<lambda>dut cfg n s r.
    allocated cfg s \<longrightarrow> (\<forall>s'. r = Some s' \<longrightarrow> allocated cfg s')", OF _ assms])
  fix loop :: "('a Vvproc_top \<Rightarrow> 'a Vvproc_top) \<Rightarrow> config \<Rightarrow> int \<Rightarrow> 'a sim \<Rightarrow> 'a sim option option"
    and dut cfg n s r
  assume IH: "\<And>dut cfg n s r. loop dut cfg n s = Some r \<Longrightarrow>
      allocated cfg s \<longrightarrow> (\<forall>s'. r = Some s' \<longrightarrow> allocated cfg s')"
    and body: "(if n < extra_cycles cfg
      then case cycle dut cfg s of None \<Rightarrow> Some None
           | Some s' \<Rightarrow> loop dut cfg (next_end_cnt n s') s'
      else Some (Some s)) = Some r"
  show "allocated cfg s \<longrightarrow> (\<forall>s'. r = Some s' \<longrightarrow> allocated cfg s')"
  proof (intro impI allI)
    fix s' assume a: "allocated cfg s" and r: "r = Some s'"
    show "allocated cfg s'"
    proof (cases "n < extra_cycles cfg")
      case False
      with body r a show ?thesis by simp
    next
      case True
      show ?thesis
      proof (cases "cycle dut cfg s")
        case None
        with True body r show ?thesis by simp
      next
        case (Some y)
        with True body have "loop dut cfg (next_end_cnt n y) y = Some r" by simp
        from IH [OF this] cycle_allocated [OF Some a] r show ?thesis by blast
      qed
    qed
  qed
qed

subsection \<open>Reset and loading\<close>

lemma clear_rvalid_nth:
  "clear_rvalid is q = Some q' \<Longrightarrow>
   length q' = length q \<and> (\<forall>j < length q. q' ! j = (if j \<in> set is then False else q ! j))"
proof (induction "is" arbitrary: q)
  case Nil
  then show ?case by simp
next
  case (Cons i "is")
  from Cons.prems obtain q1 where q1: "arr_set q (int i) False = Some q1"
    and r: "clear_rvalid is q1 = Some q'"
    by (auto split: option.splits)
  from q1 have q1_eq: "q1 = q[i := False]" and i: "i < length q" by (auto simp: arr_set_Some)
  from Cons.IH [OF r] q1_eq i show ?case by (auto simp: nth_list_update)
qed

lemma clear_rvalid_Some:
  "\<forall>i\<in>set is. i < length q \<Longrightarrow> \<exists>q'. clear_rvalid is q = Some q'"
  by (induction "is" arbitrary: q) (auto simp: arr_set_def)

lemma clear_rvalid_all: "clear_rvalid [0 ..< length q] q = Some (replicate (length q) False)"
proof -
  from clear_rvalid_Some [of "[0 ..< length q]" q] obtain q' where
    q': "clear_rvalid [0 ..< length q] q = Some q'" by auto
  from clear_rvalid_nth [OF q'] have "q' = replicate (length q) False"
    by (intro nth_equalityI) simp_all
  with q' show ?thesis by simp
qed

lemma reset_cycles_frame:
  "mem (reset_cycles dut n s) = mem s \<and>
   mem_rvalid_queue (reset_cycles dut n s) = mem_rvalid_queue s \<and>
   mem_rdata_queue (reset_cycles dut n s) = mem_rdata_queue s \<and>
   mem_err_queue (reset_cycles dut n s) = mem_err_queue s \<and>
   rst_ni (vtop (reset_cycles dut n s)) = rst_ni (vtop s) \<and>
   mem_rvalid_i (vtop (reset_cycles dut n s)) = mem_rvalid_i (vtop s) \<and>
   (\<not> clk_i (vtop s) \<longrightarrow> \<not> clk_i (vtop (reset_cycles dut n s)))"
  by (induction n arbitrary: s) (simp_all add: log_cycle_def eval_def)

lemma reset_sequence_fields:
  assumes "allocated cfg s"
  shows "\<exists>e. reset_sequence dut cfg s = Some e \<and> mem e = mem s \<and>
           mem_rvalid_queue e = replicate (nat (mem_latency cfg)) False \<and>
           mem_rdata_queue e = mem_rdata_queue s \<and> mem_err_queue e = mem_err_queue s \<and>
           \<not> clk_i (vtop e) \<and> rst_ni (vtop e) \<and> \<not> mem_rvalid_i (vtop e)"
proof -
  from assms have l: "length (mem_rvalid_queue s) = nat (mem_latency cfg)"
    by (simp add: allocated_def)
  define s1 where "s1 = s\<lparr>mem_rvalid_queue := replicate (nat (mem_latency cfg)) False,
                vtop := (vtop s)\<lparr>mem_rvalid_i := False, clk_i := False, rst_ni := False\<rparr>\<rparr>"
  define s2 where "s2 = reset_cycles dut 10 s1"
  define e where "e = s2\<lparr>vtop := eval dut ((vtop s2)\<lparr>rst_ni := True\<rparr>)\<rparr>"
  have c: "clear_rvalid [0 ..< nat (mem_latency cfg)] (mem_rvalid_queue s) =
      Some (replicate (nat (mem_latency cfg)) False)"
    using clear_rvalid_all [of "mem_rvalid_queue s"] l by simp
  have r: "reset_sequence dut cfg s = Some e"
    unfolding reset_sequence_def Let_def e_def s2_def s1_def by (simp add: c)
  from reset_cycles_frame [of dut 10 s1]
  have f: "mem s2 = mem s1" "mem_rvalid_queue s2 = mem_rvalid_queue s1"
    "mem_rdata_queue s2 = mem_rdata_queue s1" "mem_err_queue s2 = mem_err_queue s1"
    "mem_rvalid_i (vtop s2) = mem_rvalid_i (vtop s1)" "\<not> clk_i (vtop s1) \<longrightarrow> \<not> clk_i (vtop s2)"
    unfolding s2_def by blast+
  have s1f: "mem s1 = mem s" "mem_rvalid_queue s1 = replicate (nat (mem_latency cfg)) False"
    "mem_rdata_queue s1 = mem_rdata_queue s" "mem_err_queue s1 = mem_err_queue s"
    "\<not> mem_rvalid_i (vtop s1)" "\<not> clk_i (vtop s1)"
    by (simp_all add: s1_def)
  have "mem e = mem s" "mem_rvalid_queue e = replicate (nat (mem_latency cfg)) False"
    "mem_rdata_queue e = mem_rdata_queue s" "mem_err_queue e = mem_err_queue s"
    "\<not> clk_i (vtop e)" "rst_ni (vtop e)" "\<not> mem_rvalid_i (vtop e)"
    using f s1f by (simp_all add: e_def eval_def)
  with r show ?thesis by blast
qed

lemma reset_sequence_allocated:
  assumes "reset_sequence dut cfg s = Some e" and "allocated cfg s"
  shows "allocated cfg e"
proof -
  from reset_sequence_fields [OF assms(2), of dut] assms(1) have
    "mem e = mem s" "mem_rvalid_queue e = replicate (nat (mem_latency cfg)) False"
    "mem_rdata_queue e = mem_rdata_queue s" "mem_err_queue e = mem_err_queue s"
    by auto
  with assms(2) show ?thesis by (simp add: allocated_def)
qed

lemma reset_sequence_alike:
  assumes r: "resets dut cfg" and a1: "allocated cfg s1" and a2: "allocated cfg s2"
    and m: "mem s1 = mem s2"
  shows "\<exists>e1 e2. reset_sequence dut cfg s1 = Some e1 \<and> reset_sequence dut cfg s2 = Some e2 \<and>
           alike_allocated cfg e1 e2"
proof -
  from reset_sequence_fields [OF a1, of dut] obtain e1 where e1: "reset_sequence dut cfg s1 = Some e1"
    and f1: "mem e1 = mem s1" "mem_rvalid_queue e1 = replicate (nat (mem_latency cfg)) False"
      "mem_rdata_queue e1 = mem_rdata_queue s1" "mem_err_queue e1 = mem_err_queue s1"
      "\<not> clk_i (vtop e1)" "rst_ni (vtop e1)" "\<not> mem_rvalid_i (vtop e1)"
    by blast
  from reset_sequence_fields [OF a2, of dut] obtain e2 where e2: "reset_sequence dut cfg s2 = Some e2"
    and f2: "mem e2 = mem s2" "mem_rvalid_queue e2 = replicate (nat (mem_latency cfg)) False"
      "mem_rdata_queue e2 = mem_rdata_queue s2" "mem_err_queue e2 = mem_err_queue s2"
      "\<not> clk_i (vtop e2)" "rst_ni (vtop e2)" "\<not> mem_rvalid_i (vtop e2)"
    by blast
  from r e1 e2 have o: "same_outputs (vtop e1) (vtop e2)" unfolding resets_def by blast
  have "alike e1 e2"
  proof (rule alikeI)
    show "mem e1 = mem e2" using f1 f2 m by simp
    show "length (mem_rvalid_queue e1) = length (mem_rvalid_queue e2)" using f1 f2 by simp
    show "length (mem_rdata_queue e1) = length (mem_rdata_queue e2)"
      using f1 f2 a1 a2 by (simp add: allocated_def)
    show "length (mem_err_queue e1) = length (mem_err_queue e2)"
      using f1 f2 a1 a2 by (simp add: allocated_def)
    show "same_ports (vtop e1) (vtop e2)"
      using f1 f2 o by (simp add: same_ports_def same_response_def)
    fix i assume "i < length (mem_rvalid_queue e1)"
    then show "same_response (slot e1 i) (slot e2 i)"
      using f1 f2 by (simp add: slot_def same_response_def)
  qed
  with e1 e2 reset_sequence_allocated [OF e1 a1] reset_sequence_allocated [OF e2 a2]
  show ?thesis by (simp add: alike_allocated_def)
qed

lemma simulate_alike:
  assumes i: "ignores_invalid_response dut" and r: "resets dut cfg"
    and a1: "allocated cfg s1" and a2: "allocated cfg s2" and m: "mem s1 = mem s2"
  shows "rel_option (rel_option (alike_allocated cfg)) (simulate dut cfg s1) (simulate dut cfg s2)"
proof -
  from reset_sequence_alike [OF r a1 a2 m] obtain e1 e2 where
    e: "reset_sequence dut cfg s1 = Some e1" "reset_sequence dut cfg s2 = Some e2"
    and al: "alike_allocated cfg e1 e2" by blast
  from run_loop_alike [OF i al, of 0] e show ?thesis by (simp add: simulate_def)
qed

lemma simulate_allocated:
  assumes "simulate dut cfg s = Some (Some s')" and "allocated cfg s"
  shows "allocated cfg s'"
proof -
  from reset_sequence_fields [OF assms(2), of dut] obtain e where
    e: "reset_sequence dut cfg s = Some e" by blast
  with assms(1) have "run_loop dut cfg 0 e = Some (Some s')" by (simp add: simulate_def)
  from run_loop_allocated [OF this] reset_sequence_allocated [OF e assms(2)] show ?thesis by blast
qed

lemma load_program_same:
  assumes "length m1 = nat (mem_sz cfg)" and "length m2 = nat (mem_sz cfg)"
  shows "load_program cfg f m1 = load_program cfg f m2"
proof -
  have "memset m1 0 (mem_sz cfg) = memset m2 0 (mem_sz cfg)"
    using assms by (auto simp: memset_def)
  then show ?thesis by (simp add: load_program_def)
qed

lemma load_program_allocated:
  assumes "load_program cfg f (mem s) = Some ld" and "allocated cfg s"
  shows "allocated cfg (s\<lparr>mem := ld_mem ld\<rparr>)"
proof -
  from assms(2) have "length (mem s) = nat (mem_sz cfg)" by (simp add: allocated_def)
  from load_program_loaded [OF assms(1) this] assms(2) show ?thesis by (simp add: allocated_def)
qed

subsection \<open>Programs and batches\<close>

lemma run_program_allocated:
  assumes "run_program dut cfg p s = Some (Some (s', out))" and "allocated cfg s"
  shows "allocated cfg s'"
proof (cases "prog_file (snd p)")
  case None
  with assms show ?thesis by (simp add: run_program_def)
next
  case (Some f)
  with assms(1) obtain ld where ld: "load_program cfg f (mem s) = Some ld"
    by (cases "load_program cfg f (mem s)") (simp_all add: run_program_def)
  from assms(1) Some ld obtain ref where ref: "write_words (fopen_w (ref_file (snd p))) (ld_mem ld)
                       (ref_start (fst p)) (ref_end (fst p)) = Some ref"
    by (cases "write_words (fopen_w (ref_file (snd p))) (ld_mem ld)
                       (ref_start (fst p)) (ref_end (fst p))") (simp_all add: run_program_def)
  from assms(1) Some ld ref have "simulate dut cfg (s\<lparr>mem := ld_mem ld\<rparr>) = Some (Some s')"
    by (auto simp: run_program_def split: option.splits)
  from simulate_allocated [OF this load_program_allocated [OF ld assms(2)]] show ?thesis .
qed

lemma run_batch_allocated:
  "run_batch dut cfg ps s = Some (Some (s', outs)) \<Longrightarrow> allocated cfg s \<Longrightarrow> allocated cfg s'"
proof (induction ps arbitrary: s outs)
  case Nil
  then show ?case by simp
next
  case (Cons p ps)
  from Cons.prems(1) obtain s1 out outs1 where p: "run_program dut cfg p s = Some (Some (s1, out))"
    and r: "run_batch dut cfg ps s1 = Some (Some (s', outs1))"
    by (auto split: option.splits)
  from Cons.IH [OF r run_program_allocated [OF p Cons.prems(2)]] show ?case .
qed

lemma run_program_alike:
  assumes i: "ignores_invalid_response dut" and r: "resets dut cfg"
    and a1: "allocated cfg s1" and a2: "allocated cfg s2"
  shows "rel_option (rel_option same_output) (run_program dut cfg p s1) (run_program dut cfg p s2)"
proof (cases "prog_file (snd p)")
  case None
  then show ?thesis by (simp add: run_program_def same_output_def)
next
  case (Some f)
  from a1 a2 have l: "length (mem s1) = nat (mem_sz cfg)" "length (mem s2) = nat (mem_sz cfg)"
    by (simp_all add: allocated_def)
  note ld_eq = load_program_same [OF l, of f]
  show ?thesis
  proof (cases "load_program cfg f (mem s2)")
    case None
    with Some ld_eq show ?thesis by (simp add: run_program_def)
  next
    case ld: (Some ld)
    with ld_eq have ld1: "load_program cfg f (mem s1) = Some ld" by simp
    show ?thesis
    proof (cases "write_words (fopen_w (ref_file (snd p))) (ld_mem ld)
                       (ref_start (fst p)) (ref_end (fst p))")
      case None
      with Some ld ld1 show ?thesis by (simp add: run_program_def)
    next
      case ref: (Some ref)
      have sim: "rel_option (rel_option (alike_allocated cfg))
          (simulate dut cfg (s1\<lparr>mem := ld_mem ld\<rparr>)) (simulate dut cfg (s2\<lparr>mem := ld_mem ld\<rparr>))"
        by (rule simulate_alike [OF i r load_program_allocated [OF ld1 a1]
              load_program_allocated [OF ld a2]]) simp
      from sim show ?thesis
      proof (cases rule: option.rel_cases)
        case None
        with Some ld ld1 ref show ?thesis by (simp add: run_program_def)
      next
        case outer: (Some x1 x2)
        from outer(3) show ?thesis
        proof (cases rule: option.rel_cases)
          case None
          with Some ld ld1 ref outer show ?thesis by (simp add: run_program_def)
        next
          case inner: (Some y1 y2)
          from inner(3) have m: "mem y1 = mem y2"
            by (simp add: alike_allocated_def alikeD(1))
          show ?thesis
          proof (cases "write_words (fopen_w (dump_file (snd p))) (mem y2)
                                 (dump_start (fst p)) (dump_end (fst p))")
            case None
            with Some ld ld1 ref outer inner m show ?thesis by (simp add: run_program_def)
          next
            case (Some dump)
            with \<open>prog_file (snd p) = Some f\<close> ld ld1 ref outer inner m show ?thesis
              by (simp add: run_program_def same_output_def)
          qed
        qed
      qed
    qed
  qed
qed

lemma program_signals_alike:
  assumes i: "ignores_invalid_response dut" and r: "resets dut cfg"
    and a1: "allocated cfg s1" and a2: "allocated cfg s2"
  shows "rel_option same_response (program_signals dut cfg f s1 k) (program_signals dut cfg f s2 k)"
proof -
  from a1 a2 have l: "length (mem s1) = nat (mem_sz cfg)" "length (mem s2) = nat (mem_sz cfg)"
    by (simp_all add: allocated_def)
  note ld_eq = load_program_same [OF l, of f]
  show ?thesis
  proof (cases "load_program cfg f (mem s2)")
    case None
    with ld_eq show ?thesis by (simp add: program_signals_def program_entry_def)
  next
    case (Some ld)
    with ld_eq have ld1: "load_program cfg f (mem s1) = Some ld" by simp
    have "mem (s1\<lparr>mem := ld_mem ld\<rparr>) = mem (s2\<lparr>mem := ld_mem ld\<rparr>)" by simp
    from reset_sequence_alike [OF r load_program_allocated [OF ld1 a1]
        load_program_allocated [OF Some a2] this]
    obtain e1 e2 where e: "reset_sequence dut cfg (s1\<lparr>mem := ld_mem ld\<rparr>) = Some e1"
      "reset_sequence dut cfg (s2\<lparr>mem := ld_mem ld\<rparr>) = Some e2"
      and al: "alike_allocated cfg e1 e2" by blast
    have "rel_option same_response (delivered_in dut cfg e1 k) (delivered_in dut cfg e2 k)"
      using cycles_alike [OF i al, of "Suc k"]
    proof (cases rule: option.rel_cases)
      case None
      then show ?thesis by (simp add: delivered_in_def)
    next
      case (Some y1 y2)
      from Some(3) have "same_ports (vtop y1) (vtop y2)"
        by (simp add: alike_allocated_def alikeD(6))
      then have "same_response (delivered y1) (delivered y2)"
        by (simp add: same_ports_def delivered_def)
      with Some(1,2) show ?thesis by (simp add: delivered_in_def)
    qed
    with e Some ld1 show ?thesis by (simp add: program_signals_def program_entry_def)
  qed
qed

lemma same_response_valid:
  assumes "rel_option same_response x y"
  shows "map_option fst x = map_option fst y"
  using assms
proof (cases rule: option.rel_cases)
  case None
  then show ?thesis by simp
next
  case (Some r1 r2)
  then show ?thesis by (simp add: same_response_def)
qed

lemma same_output_snd:
  assumes "rel_option (rel_option same_output) x y"
  shows "map_option (map_option snd) x = map_option (map_option snd) y"
  using assms
proof (cases rule: option.rel_cases)
  case None
  then show ?thesis by simp
next
  case outer: (Some u v)
  from outer(3) show ?thesis
  proof (cases rule: option.rel_cases)
    case None
    with outer show ?thesis by simp
  next
    case (Some a b)
    with outer show ?thesis by (simp add: same_output_def)
  qed
qed

subsection \<open>The scripted device\<close>

lemma stub_dut_ignores: "ignores_invalid_response (stub_dut script)"
  unfolding ignores_invalid_response_def
proof (intro allI impI)
  fix t1 t2 :: "nat Vvproc_top"
  assume "same_ports t1 t2"
  then have c: "clk_i t1 = clk_i t2" "rst_ni t1 = rst_ni t2" and o: "same_outputs t1 t2"
    by (simp_all add: same_ports_def)
  from o have k: "core t1 = core t2" by (simp add: same_outputs_def)
  show "same_outputs (stub_dut script t1) (stub_dut script t2)"
  proof (cases "rst_ni t2")
    case False
    with c show ?thesis by (simp add: stub_dut_def same_outputs_def)
  next
    case r: True
    show ?thesis
    proof (cases "clk_i t2")
      case True
      with r c o show ?thesis by (simp add: stub_dut_def)
    next
      case False
      obtain rq ad we be wd where
        "script_at script (core t2) = (rq, ad, we, be, wd)"
        by (metis prod_cases5)
      with False r c k show ?thesis by (simp add: stub_dut_def same_outputs_def)
    qed
  qed
qed

lemma stub_dut_reset_eval:
  "\<not> rst_ni t \<Longrightarrow> same_outputs (eval (stub_dut script) t) t0 \<longleftrightarrow>
     same_outputs (t\<lparr>mem_req_o := False, mem_addr_o := 0, mem_we_o := False, mem_be_o := 0,
             mem_wdata_o := 0, core := 0\<rparr>) t0"
  by (simp add: eval_def stub_dut_def same_outputs_def)

lemma stub_dut_reset_cycles:
  "\<not> rst_ni (vtop s) \<Longrightarrow>
   \<not> rst_ni (vtop (reset_cycles (stub_dut script) (Suc n) s)) \<and>
   \<not> clk_i (vtop (reset_cycles (stub_dut script) (Suc n) s)) \<and>
   core (vtop (reset_cycles (stub_dut script) (Suc n) s)) = 0"
proof (induction n arbitrary: s)
  case 0
  then show ?case by (simp add: eval_def stub_dut_def log_cycle_def)
next
  case (Suc n)
  let ?s = "log_cycle (s\<lparr>vtop := eval (stub_dut script)
      ((eval (stub_dut script) ((vtop s)\<lparr>clk_i := True\<rparr>))\<lparr>clk_i := False\<rparr>)\<rparr>)"
  from Suc.prems have "\<not> rst_ni (vtop ?s)" by (simp add: eval_def log_cycle_def)
  from Suc.IH [OF this] show ?case by simp
qed

lemma stub_dut_resets: "resets (stub_dut script) cfg"
  unfolding resets_def
proof (intro allI impI)
  fix s1 s2 e1 e2 :: "nat sim"
  assume e1: "reset_sequence (stub_dut script) cfg s1 = Some e1"
    and e2: "reset_sequence (stub_dut script) cfg s2 = Some e2"
  have out: "mem_req_o (vtop e) = fst (script_at script 0) \<and>
      mem_addr_o (vtop e) = fst (snd (script_at script 0)) \<and>
      mem_we_o (vtop e) = fst (snd (snd (script_at script 0))) \<and>
      mem_be_o (vtop e) = fst (snd (snd (snd (script_at script 0)))) \<and>
      mem_wdata_o (vtop e) = snd (snd (snd (snd (script_at script 0)))) \<and>
      core (vtop e) = Suc 0"
    if e: "reset_sequence (stub_dut script) cfg s = Some e" for s e :: "nat sim"
  proof -
    from e obtain rv where e_eq: "e = (reset_cycles (stub_dut script) 10
         (s\<lparr>mem_rvalid_queue := rv,
            vtop := (vtop s)\<lparr>mem_rvalid_i := False, clk_i := False, rst_ni := False\<rparr>\<rparr>))
       \<lparr>vtop := eval (stub_dut script) ((vtop (reset_cycles (stub_dut script) 10
         (s\<lparr>mem_rvalid_queue := rv,
            vtop := (vtop s)\<lparr>mem_rvalid_i := False, clk_i := False, rst_ni := False\<rparr>\<rparr>)))
          \<lparr>rst_ni := True\<rparr>)\<rparr>"
      unfolding reset_sequence_def Let_def by (auto split: bind_splits)
    let ?s1 = "s\<lparr>mem_rvalid_queue := rv,
            vtop := (vtop s)\<lparr>mem_rvalid_i := False, clk_i := False, rst_ni := False\<rparr>\<rparr>"
    have ten: "(10::nat) = Suc 9" by simp
    have "\<not> rst_ni (vtop ?s1)" by simp
    from stub_dut_reset_cycles [OF this, of script 9]
    have r: "\<not> clk_i (vtop (reset_cycles (stub_dut script) 10 ?s1))"
      "core (vtop (reset_cycles (stub_dut script) 10 ?s1)) = 0"
      unfolding ten by simp_all
    obtain rq ad we be wd where sc: "script_at script 0 = (rq, ad, we, be, wd)"
      by (metis prod_cases5)
    show ?thesis
      unfolding e_eq using r sc by (simp add: eval_def stub_dut_def)
  qed
  from out [OF e1] out [OF e2] show "same_outputs (vtop e1) (vtop e2)"
    by (simp add: same_outputs_def)
qed

subsection \<open>No residue but in signals that are not valid\<close>

text \<open>
  C8, as the code has it. Before each program the memory is zero-filled and loaded, the valid
  flags of all queue slots are cleared and the device is taken through the reset sequence;
  the data and error slots of the queues are not cleared. So, for a device that leaves the
  reset sequence in a state that does not depend on its history and that ignores the data
  and error ports while the valid port is low: after any two batches that ran to their end,
  a program gives the same reference and dump files, or fails or runs forever in both; and at
  the end of each of its cycles the response ports carry the same valid signal and, when it
  is high, the same data and error signals.
\<close>

theorem no_residue_between_programs:
  assumes "ignores_invalid_response dut" and "resets dut cfg"
    and "allocated cfg s0" and "allocated cfg s0'"
    and "run_batch dut cfg ps s0 = Some (Some (sa, outs))"
    and "run_batch dut cfg ps' s0' = Some (Some (sb, outs'))"
  shows "rel_option (rel_option same_output) (run_program dut cfg p sa) (run_program dut cfg p sb) \<and>
         rel_option same_response (program_signals dut cfg f sa k) (program_signals dut cfg f sb k)"
proof -
  from run_batch_allocated [OF assms(5,3)] have a: "allocated cfg sa" .
  from run_batch_allocated [OF assms(6,4)] have b: "allocated cfg sb" .
  from run_program_alike [OF assms(1,2) a b] program_signals_alike [OF assms(1,2) a b]
  show ?thesis by blast
qed

text \<open>
  The program \<open>prog_ok\<close> after a batch that ran \<open>prog_ok\<close> before, and as the first
  program.
\<close>

theorem no_residue_between_programs_witness:
  "allocated cfg_w (fresh_sim cfg_w) \<and>
   run_batch dut_t cfg_w [prog_ok] (fresh_sim cfg_w) =
     Some (Some (sim_a, [Some ([''11223344'', ''55667788''], [''00000001'', ''55667788''])])) \<and>
   run_batch dut_t cfg_w [] (fresh_sim cfg_w) = Some (Some (fresh_sim cfg_w, [])) \<and>
   map_option (map_option snd) (run_program dut_t cfg_w prog_ok sim_a) =
     map_option (map_option snd) (run_program dut_t cfg_w prog_ok (fresh_sim cfg_w)) \<and>
   map_option fst (program_signals dut_t cfg_w ''11223344 55667788'' sim_a 0) =
     map_option fst (program_signals dut_t cfg_w ''11223344 55667788'' (fresh_sim cfg_w) 0)"
proof -
  have i: "ignores_invalid_response dut_t" unfolding dut_t_def by (rule stub_dut_ignores)
  have r: "resets dut_t cfg_w" unfolding dut_t_def by (rule stub_dut_resets)
  have a: "allocated cfg_w (fresh_sim cfg_w)" by (rule allocated_fresh_sim)
  have b1: "run_batch dut_t cfg_w [prog_ok] (fresh_sim cfg_w) =
     Some (Some (sim_a, [Some ([''11223344'', ''55667788''], [''00000001'', ''55667788''])]))"
    by code_simp
  have b2: "run_batch dut_t cfg_w [] (fresh_sim cfg_w) = Some (Some (fresh_sim cfg_w, []))"
    by simp
  from no_residue_between_programs [OF i r a a b1 b2, of prog_ok "''11223344 55667788''" 0]
  have p: "rel_option (rel_option same_output) (run_program dut_t cfg_w prog_ok sim_a)
            (run_program dut_t cfg_w prog_ok (fresh_sim cfg_w))"
    and s: "rel_option same_response (program_signals dut_t cfg_w ''11223344 55667788'' sim_a 0)
            (program_signals dut_t cfg_w ''11223344 55667788'' (fresh_sim cfg_w) 0)"
    by blast+
  from same_output_snd [OF p] same_response_valid [OF s] a b1 b2
  show ?thesis by (simp only: simp_thms)
qed

text \<open>
  C8, as stated, fails: in its first cycle the program that runs after \<open>prog_ok\<close> gets on
  the data port the word that the last cycle of \<open>prog_ok\<close> read, and the program that
  runs first gets the initial content of the queue.
\<close>

theorem residue_in_data_signals_counterexample:
  "run_batch dut_t cfg_w [prog_ok] (fresh_sim cfg_w) =
     Some (Some (sim_a, [Some ([''11223344'', ''55667788''], [''00000001'', ''55667788''])])) \<and>
   program_signals dut_t cfg_w ''11223344 55667788'' sim_a 0 = Some (False, 1, False) \<and>
   program_signals dut_t cfg_w ''11223344 55667788'' (fresh_sim cfg_w) 0 = Some (False, 0, False)"
  by code_simp

section \<open>Configurations in which every cycle is defined\<close>

text \<open>
  With an aligned bus and a latency of at least 1, the effective address and the bytes after
  it lie in the buffer, so a cycle never leaves the buffers: the runs that the properties
  above speak of exist from every allocated state and for every device.
\<close>

lemma and_neg_exp: "x AND - (2 ^ j) = push_bit j (drop_bit j x)" for x :: "32 word"
  by (rule bit_eqI) (auto simp: minus_exp_eq_not_mask bit_simps)

lemma uint_and_neg_exp: "uint (x AND - (2 ^ j)) = 2 ^ j * (uint x div 2 ^ j)" for x :: "32 word"
proof -
  have "uint x div 2 ^ j * 2 ^ j + uint x mod 2 ^ j = uint x" by (rule div_mult_mod_eq)
  moreover have "0 \<le> uint x mod 2 ^ j" by simp
  ultimately have "uint x div 2 ^ j * 2 ^ j \<le> uint x" by linarith
  then have le: "2 ^ j * (uint x div 2 ^ j) \<le> uint x" by (simp add: mult.commute)
  have "uint (push_bit j (drop_bit j x)) = take_bit 32 (push_bit j (uint (drop_bit j x)))"
    by (simp add: unsigned_push_bit_eq)
  also have "uint (drop_bit j x) = uint x div 2 ^ j"
  proof -
    have "uint (drop_bit j x) = int (unat (drop_bit j x))" by simp
    also have "\<dots> = int (drop_bit j (unat x))" by (simp only: unat_drop_bit_eq)
    also have "\<dots> = int (unat x div 2 ^ j)" by (simp only: drop_bit_eq_div)
    also have "\<dots> = uint x div 2 ^ j" by (simp add: zdiv_int)
    finally show ?thesis .
  qed
  also have "push_bit j (uint x div 2 ^ j) = 2 ^ j * (uint x div 2 ^ j)"
    by (simp add: push_bit_eq_mult)
  also have "take_bit 32 (2 ^ j * (uint x div 2 ^ j)) = 2 ^ j * (uint x div 2 ^ j)"
  proof (rule take_bit_int_eq_self)
    show "0 \<le> 2 ^ j * (uint x div 2 ^ j)" by (simp add: pos_imp_zdiv_nonneg_iff)
    have "uint x < 2 ^ 32" using uint_bounded [of x] by simp
    with le show "2 ^ j * (uint x div 2 ^ j) < 2 ^ 32" by linarith
  qed
  finally show ?thesis by (simp add: and_neg_exp)
qed

lemma effective_addr_aligned:
  assumes sz: "0 < mem_sz cfg" "mem_sz cfg < 2 ^ 31"
    and k: "c_div (mem_w cfg) 8 = 2 ^ j" and d: "2 ^ j dvd mem_sz cfg"
  shows "0 \<le> effective_addr cfg a \<and> effective_addr cfg a + 2 ^ j \<le> mem_sz cfg"
proof -
  let ?m = "word_of_int (mem_sz cfg) :: 32 word"
  let ?x = "a mod ?m"
  have um: "uint ?m = mem_sz cfg" using sz by (simp add: uint_word_of_int)
  then have "0 < ?m" using sz(1) by (simp add: word_less_def)
  then have "?x < ?m" by (rule word_mod_less_divisor)
  then have ux: "uint ?x < mem_sz cfg" using um by (simp add: word_less_def)
  have mask: "(word_of_int (NOT (c_div (mem_w cfg) 8 - 1)) :: 32 word) = - (2 ^ j)"
    unfolding k by (simp add: not_int_def)
  have uy: "uint (?x AND - (2 ^ j)) = 2 ^ j * (uint ?x div 2 ^ j)" by (rule uint_and_neg_exp)
  from d obtain q where q: "mem_sz cfg = 2 ^ j * q" by (auto simp: dvd_def)
  have "uint ?x div 2 ^ j < q"
  proof (rule ccontr)
    assume "\<not> uint ?x div 2 ^ j < q"
    then have "q \<le> uint ?x div 2 ^ j" by simp
    then have "2 ^ j * q \<le> 2 ^ j * (uint ?x div 2 ^ j)" by (simp add: mult_left_mono)
    also have "\<dots> \<le> uint ?x"
    proof -
      have "uint ?x div 2 ^ j * 2 ^ j + uint ?x mod 2 ^ j = uint ?x" by (rule div_mult_mod_eq)
      moreover have "0 \<le> uint ?x mod 2 ^ j" by simp
      ultimately have "uint ?x div 2 ^ j * 2 ^ j \<le> uint ?x" by linarith
      then show ?thesis by (simp add: mult.commute)
    qed
    finally show False using ux q by simp
  qed
  then have "uint ?x div 2 ^ j + 1 \<le> q" by simp
  then have "2 ^ j * (uint ?x div 2 ^ j + 1) \<le> 2 ^ j * q" by (simp add: mult_left_mono)
  moreover have "uint (?x AND - (2 ^ j)) + 2 ^ j = 2 ^ j * (uint ?x div 2 ^ j + 1)"
    by (simp only: uy) (simp add: algebra_simps)
  ultimately have top: "uint (?x AND - (2 ^ j)) + 2 ^ j \<le> mem_sz cfg"
    by (simp only: q)
  have "(0::int) < 2 ^ j" by simp
  with top have "uint (?x AND - (2 ^ j)) < 2 ^ 31" using sz(2) by linarith
  then have "sint (?x AND - (2 ^ j)) = uint (?x AND - (2 ^ j))" by (rule sint_small)
  with top show ?thesis by (simp add: effective_addr_def mask)
qed

lemma bus_aligned_exp:
  assumes "bus_aligned cfg"
  shows "\<exists>j. c_div (mem_w cfg) 8 = 2 ^ j \<and> 2 ^ j dvd mem_sz cfg \<and> c_div (mem_w cfg) 8 \<le> 8"
proof -
  from assms have w: "mem_w cfg = 8 \<or> mem_w cfg = 16 \<or> mem_w cfg = 32 \<or> mem_w cfg = 64"
    and d: "c_div (mem_w cfg) 8 dvd mem_sz cfg"
    by (simp_all add: bus_aligned_def)
  from w have e: "c_div (mem_w cfg) 8 = 2 ^ 0 \<or> c_div (mem_w cfg) 8 = 2 ^ 1 \<or>
      c_div (mem_w cfg) 8 = 2 ^ 2 \<or> c_div (mem_w cfg) 8 = 2 ^ 3"
    by (auto simp: c_div_def)
  from w have "c_div (mem_w cfg) 8 \<le> 8" by (auto simp: c_div_def)
  with e d show ?thesis by metis
qed

lemma read_memory_request_defined:
  assumes b: "bus_aligned cfg" and a: "allocated cfg s" and L: "1 \<le> mem_latency cfg"
  shows "\<exists>s1. read_memory_request cfg s = Some s1"
proof -
  from bus_aligned_exp [OF b] obtain j where k: "c_div (mem_w cfg) 8 = 2 ^ j"
    and d: "2 ^ j dvd mem_sz cfg" and w: "c_div (mem_w cfg) 8 \<le> 8" by blast
  from b have sz: "0 < mem_sz cfg" "mem_sz cfg < 2 ^ 31" by (simp_all add: bus_aligned_def)
  let ?addr = "effective_addr cfg (mem_addr_o (vtop s))"
  from effective_addr_aligned [OF sz k d, of "mem_addr_o (vtop s)"]
  have r: "0 \<le> ?addr" "?addr + 2 ^ j \<le> mem_sz cfg" by simp_all
  from a have len: "length (mem s) = nat (mem_sz cfg)" by (simp add: allocated_def)
  have inr: "\<forall>i\<in>set (bus_bytes cfg). 0 \<le> ?addr + int i \<and> ?addr + int i < int (length (mem s))"
  proof
    fix i assume "i \<in> set (bus_bytes cfg)"
    then have "i < nat (2 ^ j)" unfolding bus_bytes_def k by simp
    then have "int i < int (nat (2 ^ j))" by (simp only: of_nat_less_iff)
    then have il: "int i < 2 ^ j" by simp
    have "int (length (mem s)) = mem_sz cfg" using len sz by simp
    with il r show "0 \<le> ?addr + int i \<and> ?addr + int i < int (length (mem s))" by linarith
  qed
  have narrow: "\<forall>i\<in>set (bus_bytes cfg). i < 8"
  proof
    fix i assume "i \<in> set (bus_bytes cfg)"
    then have "i < nat (c_div (mem_w cfg) 8)" by (simp add: bus_bytes_def)
    with w show "i < 8" by linarith
  qed
  from narrow inr have
    "\<forall>i\<in>set (bus_bytes cfg). i < 32 \<and> 0 \<le> ?addr + int i \<and> ?addr + int i < int (length (mem s))"
    by auto
  from write_bytes_Some [OF this] have "\<exists>m. write_request cfg (vtop s) (mem s) = Some m"
    by (simp add: write_request_def)
  then obtain m where m: "write_request cfg (vtop s) (mem s) = Some m" by blast
  then have lm: "length m = length (mem s)"
    by (auto simp: write_request_def write_bytes_length split: if_splits)
  from a L have q: "0 < length (mem_rvalid_queue s)" "0 < length (mem_err_queue s)"
    "0 < length (mem_rdata_queue s)" by (simp_all add: allocated_def)
  from q have "0 < length ((mem_rdata_queue s)[0 := 0])" by simp
  moreover from narrow inr lm have
    "\<forall>i\<in>set (bus_bytes cfg). i * 8 < 64 \<and> 0 \<le> ?addr + int i \<and> ?addr + int i < int (length m)"
    by auto
  ultimately obtain rd where
    rd: "read_bytes m ?addr (bus_bytes cfg) ((mem_rdata_queue s)[0 := 0]) = Some rd"
    using read_bytes_Some [of "(mem_rdata_queue s)[0 := 0]" "bus_bytes cfg" ?addr m] by blast
  from m q rd show ?thesis
    by (simp add: read_memory_request_def Let_def arr_set_def)
qed

lemma cycle_defined:
  assumes "bus_aligned cfg" and "allocated cfg s" and "1 \<le> mem_latency cfg"
  shows "\<exists>s'. cycle dut cfg s = Some s'"
proof -
  from read_memory_request_defined [OF assms] cycle_None_iff [OF assms(2), of dut]
  show ?thesis by auto
qed

lemma cycles_defined:
  assumes "bus_aligned cfg" and "1 \<le> mem_latency cfg"
  shows "allocated cfg s \<Longrightarrow> \<exists>s'. cycles dut cfg n s = Some s'"
proof (induction n arbitrary: s)
  case 0
  then show ?case by simp
next
  case (Suc n)
  from cycle_defined [OF assms(1) Suc.prems assms(2), of dut] obtain s1 where
    s1: "cycle dut cfg s = Some s1" by blast
  from Suc.IH [OF cycle_allocated [OF s1 Suc.prems]] s1 show ?case by simp
qed

lemma simulation_halts_aligned:
  assumes "bus_aligned cfg" and "1 \<le> mem_latency cfg" and "1 \<le> extra_cycles cfg"
    and "allocated cfg s" and "reset_sequence dut cfg s = Some s0"
    and "first_zero_request dut cfg s0 C"
  shows "\<exists>s'. simulate dut cfg s = Some (Some s') \<and>
              cycles dut cfg (C + nat (extra_cycles cfg)) s0 = Some s'"
proof -
  from reset_sequence_allocated [OF assms(5,4)] have a: "allocated cfg s0" .
  from cycles_defined [OF assms(1,2) a, of dut "C + nat (extra_cycles cfg)"] obtain s' where
    c: "cycles dut cfg (C + nat (extra_cycles cfg)) s0 = Some s'" by blast
  from assms(3) have "0 < extra_cycles cfg" by simp
  from run_loop_running [OF this assms(6) c] assms(5)
  have "simulate dut cfg s = Some (Some s')" by (simp add: simulate_def)
  with c show ?thesis by blast
qed

end
